theory Spec2Isabelle
  imports Main "HOL-Library.Sublist"
begin

section \<open>Values, objects and failures\<close>

text \<open>
  Python values that reach the parser.  A list that exists before a parse call (a
  \<open>default\<close> or \<open>const\<close> given at registration, the caller's token list) is an object of
  the store and is named by \<open>PRef\<close>; a list created by the running parse call (\<open>ret = []\<close>,
  \<open>arg_vals[i] = []\<close>) has a single reference while it is being filled, so it is carried by
  value as \<open>PList\<close>.
\<close>

datatype pyval =
    PNone
  | PBool bool
  | PInt int
  | PStr string
  | PList "pyval list"
  | PRef nat

text \<open>The store: every address holds the elements of one list object.\<close>

type_synonym store = "nat \<Rightarrow> pyval list"

text \<open>
  \<open>_ArgError\<close> is raised with a message; the constructors are the message shapes of the
  source, carrying what the message interpolates.  \<open>usage\<close> only prints, and printing is
  not part of the model.
\<close>

datatype arg_error =
    MissingValue string           \<comment> \<open>\<open>expecting value for <optname>\<close>\<close>
  | InvalidChoice string          \<comment> \<open>\<open>value <arg> must be one of this ...\<close>\<close>
  | InvalidValue string           \<comment> \<open>\<open>invalid <type> value: <arg>\<close>\<close>
  | UnknownOption string          \<comment> \<open>\<open>unknown option <a>\<close>\<close>
  | ExtraArguments "string list"  \<comment> \<open>\<open>extra args: ...\<close>\<close>
  | MissingRequired "string list" \<comment> \<open>\<open>option(s) '...' is(are) required\<close>\<close>

datatype py_exception = AttributeError | IndexError | AssertionError | ValueError

datatype failure =
    Raised arg_error       \<comment> \<open>an \<open>_ArgError\<close> propagating\<close>
  | HelpExit               \<comment> \<open>\<open>usage(True); sys.exit(0)\<close>\<close>
  | ErrorExit arg_error    \<comment> \<open>\<open>usage(False); print("error:", e); sys.exit(2)\<close>\<close>
  | Uncaught py_exception  \<comment> \<open>any other exception, which nothing catches\<close>

section \<open>Strings\<close>

definition startswith :: "string \<Rightarrow> string \<Rightarrow> bool" where
  "startswith s p = (take (length p) s = p)"

definition lstrip_dash :: "string \<Rightarrow> string" where
  "lstrip_dash s = dropWhile (\<lambda>c. c = CHR ''-'') s"

definition replace_dash :: "string \<Rightarrow> string" where
  "replace_dash s = map (\<lambda>c. if c = CHR ''-'' then CHR ''_'' else c) s"

subsection \<open>The converters \<open>str\<close> and \<open>int\<close>\<close>

text \<open>
  A converter maps a raw token to a value; \<open>None\<close> stands for raising \<open>TypeError\<close>,
  \<open>ValueError\<close> or \<open>OSError\<close>, the three classes \<open>_checked\<close> catches.  \<open>py_int\<close> is Python's
  \<open>int\<close> on an ASCII string in base ten: surrounding white space, an optional sign, digits
  with single underscores between them.
\<close>

type_synonym converter = "string \<Rightarrow> pyval option"

definition py_str :: converter where
  "py_str s = Some (PStr s)"

definition is_space :: "char \<Rightarrow> bool" where
  "is_space c = (c \<in> set [CHR '' '', CHR 0x09, CHR 0x0A, CHR 0x0B, CHR 0x0C, CHR 0x0D])"

definition is_digit :: "char \<Rightarrow> bool" where
  "is_digit c = (c \<in> set ''0123456789'')"

definition digit_val :: "char \<Rightarrow> int" where
  "digit_val c = int (of_char c) - 48"

fun parse_digits :: "string \<Rightarrow> int \<Rightarrow> int option" where
  "parse_digits [] acc = Some acc"
| "parse_digits [c] acc = (if is_digit c then Some (10 * acc + digit_val c) else None)"
| "parse_digits (c # d # cs) acc =
     (if is_digit c then parse_digits (d # cs) (10 * acc + digit_val c)
      else if c = CHR ''_'' \<and> is_digit d then parse_digits (d # cs) acc
      else None)"

definition parse_decimal :: "string \<Rightarrow> int option" where
  "parse_decimal body =
     (case body of
        [] \<Rightarrow> None
      | c # _ \<Rightarrow> if is_digit c then parse_digits body 0 else None)"

definition py_int :: "string \<Rightarrow> int option" where
  "py_int s =
     (let t = rev (dropWhile is_space (rev (dropWhile is_space s)))
      in case t of
           [] \<Rightarrow> None
         | c # r \<Rightarrow>
             if c = CHR ''-'' then map_option uminus (parse_decimal r)
             else if c = CHR ''+'' then parse_decimal r
             else parse_decimal t)"

definition py_int_conv :: converter where
  "py_int_conv s = map_option PInt (py_int s)"

section \<open>The argument spec: class \<open>_Arg\<close>\<close>

text \<open>
  \<open>nargs\<close> is \<open>None\<close>, a string (\<open>"?"\<close>, \<open>"*"\<close>, \<open>"+"\<close>, or anything \<open>int\<close> is then applied
  to) or an integer.  \<open>action\<close> stays the string the source compares.
\<close>

datatype nargs = NNone | NStr string | NInt int

record arg =
  names :: "string list"
  dest :: string
  metavar :: "string option"
  arg_type :: converter
  action :: string
  nargs :: nargs
  const :: pyval
  default :: pyval
  required :: bool
  choices :: "pyval list option"
  help_text :: string

text \<open>\<open>_checked\<close>: the choices test on the raw token, then the conversion.\<close>

definition checked :: "arg \<Rightarrow> string \<Rightarrow> failure + pyval" where
  "checked self a =
     (if (case choices self of None \<Rightarrow> False | Some cs \<Rightarrow> cs \<noteq> [] \<and> PStr a \<notin> set cs)
      then Inl (Raised (InvalidChoice a))
      else case arg_type self a of
             Some v \<Rightarrow> Inr v
           | None \<Rightarrow> Inl (Raised (InvalidValue a)))"

text \<open>
  The \<open>while args and n != 0\<close> loop of \<open>parse\<close>, on the locals \<open>args\<close>, \<open>n\<close>, \<open>stop_at_opt\<close>
  and \<open>ret\<close>; it returns them as they are when the loop is left.
\<close>

fun collect ::
  "arg \<Rightarrow> string list \<Rightarrow> int \<Rightarrow> bool \<Rightarrow> pyval list \<Rightarrow> failure + (pyval list \<times> string list \<times> int)"
where
  "collect self [] n stop_at_opt ret = Inr (ret, [], n)"
| "collect self (t # ts) n stop_at_opt ret =
     (if n = 0 then Inr (ret, t # ts, n)
      else if stop_at_opt \<and> startswith t ''-'' \<and> t \<noteq> ''-'' then
        (if t = ''--'' then collect self ts n False ret
         else Inr (ret, t # ts, n))
      else case checked self t of
             Inl e \<Rightarrow> Inl e
           | Inr v \<Rightarrow> collect self ts (n - 1) stop_at_opt (ret @ [v]))"

text \<open>\<open>int(self.nargs)\<close> on an integer or on a string.\<close>

definition nargs_count :: "nargs \<Rightarrow> int option" where
  "nargs_count k = (case k of NInt i \<Rightarrow> Some i | NStr s \<Rightarrow> py_int s | NNone \<Rightarrow> None)"

definition collect_n :: "arg \<Rightarrow> string \<Rightarrow> string list \<Rightarrow> int \<Rightarrow> failure + (pyval \<times> string list)" where
  "collect_n self optname args n =
     (case collect self args n True [] of
        Inl e \<Rightarrow> Inl e
      | Inr (ret, args', n') \<Rightarrow>
          if n' > 0 then Inl (Raised (MissingValue optname))
          else Inr (PList ret, args'))"

text \<open>
  \<open>_Arg.parse(optname, args)\<close>: the value, and \<open>args\<close> as the pops have left it.  The
  source has a second \<open>elif self.action == "append"\<close> after the \<open>store_const\<close> case; the
  first test of the chain already takes every \<open>append\<close>, so that branch is never reached
  and the model has none.
\<close>

definition parse :: "arg \<Rightarrow> string \<Rightarrow> string list \<Rightarrow> failure + (pyval \<times> string list)" where
  "parse self optname args =
     (if action self = ''store'' \<or> action self = ''append'' then
        (if nargs self = NNone then
           (case args of
              t # ts \<Rightarrow> (case checked self t of Inl e \<Rightarrow> Inl e | Inr v \<Rightarrow> Inr (v, ts))
            | [] \<Rightarrow> Inl (Raised (MissingValue optname)))
         else if nargs self = NStr ''?'' then
           (case args of
              t # ts \<Rightarrow> (case checked self t of Inl e \<Rightarrow> Inl e | Inr v \<Rightarrow> Inr (v, ts))
            | [] \<Rightarrow> Inr (default self, []))
         else if nargs self = NStr ''*'' then collect_n self optname args (- 1)
         else if nargs self = NStr ''+'' then
           (if args = [] then Inl (Raised (MissingValue optname))
            else collect_n self optname args (- 1))
         else
           (case nargs_count (nargs self) of
              None \<Rightarrow> Inl (Uncaught ValueError)
            | Some n \<Rightarrow> collect_n self optname args n))
      else if action self = ''store_const'' then Inr (const self, args)
      else Inl (Uncaught AssertionError))"

section \<open>Registration: \<open>ArgumentParser.add_argument\<close>\<close>

text \<open>
  The parser holds the named specs \<open>opt\<close> and the positional specs \<open>pos\<close>, in declaration
  order (\<open>prog\<close>, \<open>description\<close> and \<open>epilog\<close> are read by \<open>usage\<close> only).
\<close>

record parser =
  opt :: "arg list"
  pos :: "arg list"

definition empty_parser :: parser where
  "empty_parser = \<lparr>opt = [], pos = []\<rparr>"

text \<open>The keyword arguments of \<open>add_argument\<close>; \<open>None\<close> is a key that was not passed.\<close>

record kwargs =
  kw_action :: "string option"
  kw_const :: "pyval option"
  kw_default :: "pyval option"
  kw_dest :: "string option"
  kw_type :: "converter option"
  kw_nargs :: "nargs option"
  kw_metavar :: "string option"
  kw_required :: "bool option"
  kw_choices :: "pyval list option"
  kw_help :: "string option"

definition no_kwargs :: kwargs where
  "no_kwargs = \<lparr>kw_action = None, kw_const = None, kw_default = None, kw_dest = None,
     kw_type = None, kw_nargs = None, kw_metavar = None, kw_required = None,
     kw_choices = None, kw_help = None\<rparr>"

definition kw_get :: "'a option \<Rightarrow> 'a \<Rightarrow> 'a" where
  "kw_get v d = (case v of None \<Rightarrow> d | Some x \<Rightarrow> x)"

text \<open>The \<open>for name in opt_names\<close> loop of \<open>_dest_from_optnames\<close>, with its \<open>break\<close>.\<close>

fun first_long :: "string list \<Rightarrow> string \<Rightarrow> string" where
  "first_long [] d = d"
| "first_long (name # rest) d = (if startswith name ''--'' then name else first_long rest d)"

definition dest_from_optnames :: "string list \<Rightarrow> failure + string" where
  "dest_from_optnames opt_names =
     (case opt_names of
        [] \<Rightarrow> Inl (Uncaught IndexError)
      | n0 # _ \<Rightarrow> Inr (replace_dash (lstrip_dash (first_long opt_names n0))))"

definition mk_arg :: "kwargs \<Rightarrow> string list \<Rightarrow> string \<Rightarrow> arg" where
  "mk_arg kwargs args d =
     (let action0 = kw_get (kw_action kwargs) ''store''
      in \<lparr>names = args,
          dest = d,
          metavar = kw_metavar kwargs,
          arg_type = kw_get (kw_type kwargs) py_str,
          action =
            (if action0 = ''store_true'' \<or> action0 = ''store_false'' then ''store_const''
             else action0),
          nargs = kw_get (kw_nargs kwargs) NNone,
          const =
            (if action0 = ''store_true'' then PBool True
             else if action0 = ''store_false'' then PBool False
             else kw_get (kw_const kwargs) PNone),
          default =
            (if action0 = ''store_true'' then kw_get (kw_default kwargs) (PBool False)
             else if action0 = ''store_false'' then kw_get (kw_default kwargs) (PBool True)
             else kw_get (kw_default kwargs) PNone),
          required = kw_get (kw_required kwargs) False,
          choices = kw_choices kwargs,
          help_text = kw_get (kw_help kwargs) []\<rparr>)"

definition add_argument :: "parser \<Rightarrow> string list \<Rightarrow> kwargs \<Rightarrow> failure + parser" where
  "add_argument self args kwargs =
     (if args \<noteq> [] \<and> startswith (hd args) ''-'' then
        (case (case kw_dest kwargs of
                 Some d \<Rightarrow> Inr d
               | None \<Rightarrow> dest_from_optnames args) of
           Inl e \<Rightarrow> Inl e
         | Inr d \<Rightarrow> Inr (self\<lparr>opt := opt self @ [mk_arg kwargs args d]\<rparr>))
      else
        (case kw_dest kwargs of
           Some d \<Rightarrow>
             Inr (self\<lparr>pos := pos self @ [mk_arg kwargs (if args = [] then [d] else args) d]\<rparr>)
         | None \<Rightarrow>
             (case args of
                [] \<Rightarrow> Inl (Uncaught IndexError)
              | a0 # _ \<Rightarrow> Inr (self\<lparr>pos := pos self @ [mk_arg kwargs args a0]\<rparr>))))"

section \<open>Parsing: \<open>ArgumentParser._parse_args\<close>\<close>

text \<open>A failure leaves the store as the appends made before it have left it.\<close>

type_synonym 'a result = "(failure \<times> store) + 'a"

text \<open>\<open>consume_unknown\<close>, on \<open>args\<close> and \<open>unknown\<close>.\<close>

fun consume_unknown :: "string list \<Rightarrow> string list \<Rightarrow> string list \<times> string list" where
  "consume_unknown [] unknown = ([], unknown)"
| "consume_unknown (t # ts) unknown =
     (if \<not> startswith t ''-'' then consume_unknown ts (unknown @ [t])
      else (t # ts, unknown))"

text \<open>
  The \<open>for i, opt in enumerate(self.opt)\<close> loop for the popped spelling \<open>a\<close>, on \<open>args\<close>,
  \<open>arg_vals\<close>, the store and \<open>found\<close>.  An \<open>append\<close> match does not leave the loop; any other
  match does.  \<open>arg_vals[i].append\<close> is looked up before \<open>opt.parse\<close> runs, and it mutates the
  list object \<open>arg_vals[i]\<close> refers to: the spec's own \<open>default\<close> when that is a list.
\<close>

fun scan_opts ::
  "arg list \<Rightarrow> nat \<Rightarrow> string \<Rightarrow> string list \<Rightarrow> pyval list \<Rightarrow> store \<Rightarrow> bool
     \<Rightarrow> (bool \<times> string list \<times> pyval list \<times> store) result"
where
  "scan_opts [] i a args vals st found = Inr (found, args, vals, st)"
| "scan_opts (spec # opts) i a args vals st found =
     (if a \<in> set (names spec) then
        (if action spec = ''append'' then
           (if \<not> i < length vals then Inl (Uncaught IndexError, st)
            else case (if vals ! i = PNone then PList [] else vals ! i) of
                PList xs \<Rightarrow>
                  (case parse spec a args of
                     Inl e \<Rightarrow> Inl (e, st)
                   | Inr (v, args') \<Rightarrow>
                       scan_opts opts (Suc i) a args' (vals[i := PList (xs @ [v])]) st True)
              | PRef r \<Rightarrow>
                  (case parse spec a args of
                     Inl e \<Rightarrow> Inl (e, st)
                   | Inr (v, args') \<Rightarrow>
                       scan_opts opts (Suc i) a args' vals (st(r := st r @ [v])) True)
              | _ \<Rightarrow> Inl (Uncaught AttributeError, st))
         else
           (case parse spec a args of
              Inl e \<Rightarrow> Inl (e, st)
            | Inr (v, args') \<Rightarrow>
                if i < length vals then Inr (True, args', vals[i := v], st)
                else Inl (Uncaught IndexError, st)))
      else scan_opts opts (Suc i) a args vals st found)"

text \<open>The \<open>for pos in self.pos\<close> loop, on \<open>args\<close>, \<open>arg_dest\<close> and \<open>arg_vals\<close>.\<close>

fun parse_positionals ::
  "arg list \<Rightarrow> string list \<Rightarrow> string list \<Rightarrow> pyval list
     \<Rightarrow> failure + (string list \<times> string list \<times> pyval list)"
where
  "parse_positionals [] args dests vals = Inr (args, dests, vals)"
| "parse_positionals (p # ps) args dests vals =
     (case names p of
        [] \<Rightarrow> Inl (Uncaught IndexError)
      | nm # _ \<Rightarrow>
          (case parse p nm args of
             Inl e \<Rightarrow> Inl e
           | Inr (v, args') \<Rightarrow> parse_positionals ps args' (dests @ [dest p]) (vals @ [v])))"

text \<open>The locals of \<open>_parse_args\<close> that the main loop changes, and the store.\<close>

record locals =
  args :: "string list"
  parsed_pos :: bool
  arg_dest :: "string list"
  arg_vals :: "pyval list"
  unknown :: "string list"
  store :: store

text \<open>The test of the main loop on the front token.\<close>

definition looks_like_option :: "string \<Rightarrow> bool" where
  "looks_like_option t = (startswith t ''-'' \<and> t \<noteq> ''-'' \<and> t \<noteq> ''--'')"

text \<open>
  One iteration of \<open>while args or not parsed_pos\<close>.  The flag of the result says whether
  the iteration ended in \<open>break\<close>.  \<open>named_branch\<close> gets the state after \<open>a = args.pop(0)\<close>.
\<close>

definition named_branch :: "parser \<Rightarrow> bool \<Rightarrow> string \<Rightarrow> locals \<Rightarrow> (bool \<times> locals) result" where
  "named_branch self return_unknown a s =
     (if a = ''-h'' \<or> a = ''--help'' then Inl (HelpExit, store s)
      else case scan_opts (opt self) 0 a (args s) (arg_vals s) (store s) False of
          Inl e \<Rightarrow> Inl e
        | Inr (found, args', vals', st') \<Rightarrow>
            (let s' = s\<lparr>args := args', arg_vals := vals', store := st'\<rparr>
             in if found then Inr (False, s')
                else if return_unknown then
                  (case consume_unknown args' (unknown s @ [a]) of
                     (args'', unknown') \<Rightarrow> Inr (False, s'\<lparr>args := args'', unknown := unknown'\<rparr>))
                else Inl (Raised (UnknownOption a), st')))"

definition positional_branch :: "parser \<Rightarrow> bool \<Rightarrow> locals \<Rightarrow> (bool \<times> locals) result" where
  "positional_branch self return_unknown s =
     (if parsed_pos s then
        (if return_unknown then Inr (True, s\<lparr>unknown := unknown s @ args s\<rparr>)
         else Inl (Raised (ExtraArguments (args s)), store s))
      else case parse_positionals (pos self) (args s) (arg_dest s) (arg_vals s) of
          Inl e \<Rightarrow> Inl (e, store s)
        | Inr (args', dests', vals') \<Rightarrow>
            (let s' = s\<lparr>args := args', arg_dest := dests', arg_vals := vals', parsed_pos := True\<rparr>
             in if return_unknown then
                  (case consume_unknown args' (unknown s') of
                     (args'', unknown') \<Rightarrow> Inr (False, s'\<lparr>args := args'', unknown := unknown'\<rparr>))
                else Inr (False, s')))"

definition loop_body :: "parser \<Rightarrow> bool \<Rightarrow> locals \<Rightarrow> (bool \<times> locals) result" where
  "loop_body self return_unknown s =
     (case args s of
        [] \<Rightarrow> positional_branch self return_unknown s
      | a # rest \<Rightarrow>
          if looks_like_option a then named_branch self return_unknown a (s\<lparr>args := rest\<rparr>)
          else positional_branch self return_unknown s)"

subsection \<open>What is left of \<open>args\<close> is a suffix of it\<close>

text \<open>Every pop is from the front, so each loop returns a suffix of the tokens it got.\<close>

lemma collect_suffix:
  "collect self ts n stop ret = Inr (ret', ts', n') \<Longrightarrow> suffix ts' ts"
proof (induction ts arbitrary: n stop ret)
  case Nil
  then show ?case by simp
next
  case (Cons t ts)
  show ?case
  proof (cases "n = 0")
    case True
    with Cons.prems show ?thesis by simp
  next
    case n0: False
    show ?thesis
    proof (cases "stop \<and> startswith t ''-'' \<and> t \<noteq> ''-''")
      case True
      show ?thesis
      proof (cases "t = ''--''")
        case dd: True
        with Cons.prems n0 True have "collect self ts n False ret = Inr (ret', ts', n')" by simp
        from Cons.IH[OF this] show ?thesis by (rule suffix_ConsI)
      next
        case False
        with Cons.prems n0 True show ?thesis by auto
      qed
    next
      case False
      with Cons.prems n0 obtain v where
        "collect self ts (n - 1) stop (ret @ [v]) = Inr (ret', ts', n')"
        by (auto split: sum.splits)
      from Cons.IH[OF this] show ?thesis by (rule suffix_ConsI)
    qed
  qed
qed

lemma parse_suffix:
  "parse self optname ts = Inr (v, ts') \<Longrightarrow> suffix ts' ts"
  unfolding parse_def collect_n_def
  by (auto split: if_splits list.splits sum.splits option.splits prod.splits
      dest: collect_suffix intro: suffix_ConsI)

lemma scan_opts_suffix:
  "scan_opts opts i a ts vals st found = Inr (f, ts', vals', st') \<Longrightarrow> suffix ts' ts"
proof (induction opts arbitrary: i ts vals st found)
  case Nil
  then show ?case by simp
next
  case (Cons spec opts)
  then show ?case
    by (auto split: if_splits sum.splits pyval.splits prod.splits dest!: parse_suffix)
       (blast intro: suffix_order.trans)+
qed

lemma parse_positionals_suffix:
  "parse_positionals ps ts dests vals = Inr (ts', dests', vals') \<Longrightarrow> suffix ts' ts"
proof (induction ps arbitrary: ts dests vals)
  case Nil
  then show ?case by simp
next
  case (Cons p ps)
  then show ?case
    by (auto split: list.splits sum.splits prod.splits
        dest!: parse_suffix intro: suffix_order.trans)
qed

lemma consume_unknown_suffix:
  "consume_unknown ts u = (ts', u') \<Longrightarrow> suffix ts' ts"
  by (induction ts u rule: consume_unknown.induct) (auto split: if_splits intro: suffix_ConsI)

lemma named_branch_decreases:
  "named_branch self ru a s = Inr (False, s') \<Longrightarrow>
     length (args s') \<le> length (args s) \<and> parsed_pos s' = parsed_pos s"
  unfolding named_branch_def Let_def
  by (auto split: if_splits sum.splits prod.splits
      dest!: scan_opts_suffix consume_unknown_suffix suffix_length_le)

lemma positional_branch_decreases:
  "positional_branch self ru s = Inr (False, s') \<Longrightarrow>
     length (args s') \<le> length (args s) \<and> \<not> parsed_pos s \<and> parsed_pos s'"
  unfolding positional_branch_def Let_def
  by (auto split: if_splits sum.splits prod.splits
      dest!: parse_positionals_suffix consume_unknown_suffix suffix_length_le)

lemma loop_body_decreases:
  assumes "loop_body self ru s = Inr (False, s')"
  shows "2 * length (args s') + (if parsed_pos s' then 0 else 1)
           < 2 * length (args s) + (if parsed_pos s then 0 else (1::nat))"
proof (cases "args s")
  case Nil
  with assms have "positional_branch self ru s = Inr (False, s')"
    by (simp add: loop_body_def)
  from positional_branch_decreases[OF this] show ?thesis by simp
next
  case (Cons a rest)
  show ?thesis
  proof (cases "looks_like_option a")
    case True
    with assms Cons have "named_branch self ru a (s\<lparr>args := rest\<rparr>) = Inr (False, s')"
      by (simp add: loop_body_def)
    from named_branch_decreases[OF this] Cons show ?thesis by simp
  next
    case False
    with assms Cons have "positional_branch self ru s = Inr (False, s')"
      by (simp add: loop_body_def)
    from positional_branch_decreases[OF this] show ?thesis by simp
  qed
qed

subsection \<open>The main loop\<close>

text \<open>
  \<open>while args or not parsed_pos\<close>.  An iteration that does not end the loop pops a token
  or enters the positional phase, which is entered once: the loop terminates.
\<close>

function main_loop :: "parser \<Rightarrow> bool \<Rightarrow> locals \<Rightarrow> locals result" where
  "main_loop self return_unknown s =
     (if args s \<noteq> [] \<or> \<not> parsed_pos s then
        (case loop_body self return_unknown s of
           Inl e \<Rightarrow> Inl e
         | Inr (brk, s') \<Rightarrow> if brk then Inr s' else main_loop self return_unknown s')
      else Inr s)"
  by pat_completeness auto
termination
proof (relation "measure (\<lambda>(self, ru, s). 2 * length (args s) + (if parsed_pos s then 0 else 1))")
  show "wf (measure (\<lambda>(self, ru, s). 2 * length (args s) + (if parsed_pos s then 0 else 1)))"
    by simp
next
  fix self :: parser and return_unknown :: bool and s :: locals
    and x2 :: "bool \<times> locals" and brk :: bool and s' :: locals
  assume "loop_body self return_unknown s = Inr x2" "(brk, s') = x2" "\<not> brk"
  then have "loop_body self return_unknown s = Inr (False, s')" by simp
  from loop_body_decreases[OF this]
  show "((self, return_unknown, s'), (self, return_unknown, s))
          \<in> measure (\<lambda>(self, ru, s). 2 * length (args s) + (if parsed_pos s then 0 else 1))"
    by simp
qed

text \<open>The list comprehension of the required check.\<close>

definition required_but_not_used :: "arg list \<Rightarrow> pyval list \<Rightarrow> string list" where
  "required_but_not_used opts vals =
     map (\<lambda>(i, a). dest a) (filter (\<lambda>(i, a). required a \<and> vals ! i = PNone) (enumerate 0 opts))"

text \<open>
  What a parse returns: the record \<open>values\<close> as the fields of the named tuple in order,
  each with its value, and in the tolerant mode the list \<open>unknown\<close> with it.  \<open>namedtuple\<close>
  is the library's: the model keeps the field names as they are given and makes none of
  the checks on them that a library may make.
\<close>

datatype parse_result =
    Values "(string \<times> pyval) list"
  | ValuesUnknown "(string \<times> pyval) list" "string list"

definition init_locals :: "parser \<Rightarrow> string list \<Rightarrow> store \<Rightarrow> locals" where
  "init_locals self ts st =
     \<lparr>args = ts, parsed_pos = False, arg_dest = map dest (opt self),
      arg_vals = map default (opt self), unknown = [], store = st\<rparr>"

text \<open>\<open>_parse_args(args, return_unknown)\<close>, on the local copy of the tokens.\<close>

definition parse_args_core ::
  "parser \<Rightarrow> string list \<Rightarrow> bool \<Rightarrow> store \<Rightarrow> (parse_result \<times> store) result" where
  "parse_args_core self ts return_unknown st =
     (case main_loop self return_unknown (init_locals self ts st) of
        Inl e \<Rightarrow> Inl e
      | Inr s \<Rightarrow>
          (let r = required_but_not_used (opt self) (arg_vals s);
               values = zip (arg_dest s) (arg_vals s)
           in if r \<noteq> [] then Inl (Raised (MissingRequired r), store s)
              else if return_unknown then Inr (ValuesUnknown values (unknown s), store s)
              else Inr (Values values, store s)))"

section \<open>The entry points\<close>

text \<open>
  The caller passes \<open>None\<close> or a list object, named by its address in the store; \<open>argv\<close> is
  \<open>sys.argv[1:]\<close>.  \<open>args[:]\<close> copies the elements into a new list, which \<open>_parse_args\<close>
  then consumes.  A token list holds strings; for a list with any other element the model
  stops at the \<open>AttributeError\<close> of \<open>args[0].startswith\<close>.
\<close>

fun token_strings :: "pyval list \<Rightarrow> string list option" where
  "token_strings [] = Some []"
| "token_strings (PStr t # vs) = map_option (Cons t) (token_strings vs)"
| "token_strings (_ # vs) = None"

definition parse_args_impl ::
  "parser \<Rightarrow> nat option \<Rightarrow> bool \<Rightarrow> string list \<Rightarrow> store \<Rightarrow> (parse_result \<times> store) result" where
  "parse_args_impl self args_ref return_unknown argv st =
     (case (case args_ref of None \<Rightarrow> Some argv | Some r \<Rightarrow> token_strings (st r)) of
        None \<Rightarrow> Inl (Uncaught AttributeError, st)
      | Some ts \<Rightarrow>
          (case parse_args_core self ts return_unknown st of
             Inl (Raised e, st') \<Rightarrow> Inl (ErrorExit e, st')
           | Inl (f, st') \<Rightarrow> Inl (f, st')
           | Inr r \<Rightarrow> Inr r))"

definition parse_args ::
  "parser \<Rightarrow> nat option \<Rightarrow> string list \<Rightarrow> store \<Rightarrow> (parse_result \<times> store) result" where
  "parse_args self args_ref argv st = parse_args_impl self args_ref False argv st"

definition parse_known_args ::
  "parser \<Rightarrow> nat option \<Rightarrow> string list \<Rightarrow> store \<Rightarrow> (parse_result \<times> store) result" where
  "parse_known_args self args_ref argv st = parse_args_impl self args_ref True argv st"

declare main_loop.simps [simp del]

section \<open>Definitions on the side of the specification\<close>

text \<open>
  What the loop is compared with: the tokens converted one by one, the first failure
  ending the conversion; and the number of tokens a count of \<open>n\<close> lets the loop collect
  from \<open>ts\<close> (all of them when \<open>n\<close> is negative).
\<close>

fun convert_all :: "arg \<Rightarrow> string list \<Rightarrow> failure + pyval list" where
  "convert_all self [] = Inr []"
| "convert_all self (t # ts) =
     (case checked self t of
        Inl e \<Rightarrow> Inl e
      | Inr v \<Rightarrow> (case convert_all self ts of Inl e \<Rightarrow> Inl e | Inr vs \<Rightarrow> Inr (v # vs)))"

definition budget :: "int \<Rightarrow> string list \<Rightarrow> nat" where
  "budget n ts = (if n < 0 then length ts else min (nat n) (length ts))"

text \<open>
  The three variable arities: \<open>parse\<close> runs the loop with \<open>n = -1\<close> for \<open>"*"\<close> and \<open>"+"\<close>, and
  with \<open>n = int(nargs)\<close> for a count.
\<close>

definition variable_arity :: "arg \<Rightarrow> int \<Rightarrow> bool" where
  "variable_arity self n =
     ((action self = ''store'' \<or> action self = ''append'')
      \<and> nargs self \<noteq> NNone \<and> nargs self \<noteq> NStr ''?''
      \<and> (if nargs self = NStr ''*'' \<or> nargs self = NStr ''+'' then n = - 1
         else nargs_count (nargs self) = Some n))"

text \<open>The rule as the specification words it: the last spelling that starts with \<open>--\<close>.\<close>

definition spec_dest_last_long :: "string list \<Rightarrow> string" where
  "spec_dest_last_long ns = replace_dash (lstrip_dash (last (filter (\<lambda>n. startswith n ''--'') ns)))"

text \<open>The store a call leaves behind, whether it returns or fails.\<close>

definition store_after :: "('a \<times> store) result \<Rightarrow> store" where
  "store_after x = (case x of Inl (e, st') \<Rightarrow> st' | Inr (y, st') \<Rightarrow> st')"

text \<open>No \<open>append\<close> slot of \<open>arg_vals\<close> refers to the object at \<open>r\<close>.\<close>

definition no_append_ref :: "parser \<Rightarrow> nat \<Rightarrow> pyval list \<Rightarrow> bool" where
  "no_append_ref P r vals =
     (length (opt P) \<le> length vals
      \<and> (\<forall>j<length (opt P). action (opt P ! j) = ''append'' \<longrightarrow> vals ! j \<noteq> PRef r))"

text \<open>
  The value extractions of a strict parse, in the order the loop makes them: each is a
  call \<open>spec.parse(optname, args)\<close>, recorded as the spec, the spelling it is called with
  and the tokens \<open>args\<close> holds at the call.  \<open>scan_calls\<close> lists the calls of the \<open>for opt in
  self.opt\<close> loop for the popped spelling \<open>a\<close>, \<open>pos_calls\<close> those of the \<open>for pos in self.pos\<close>
  loop, \<open>body_calls\<close> those of one iteration of the main loop and \<open>extractions\<close> those of the
  whole strict loop from the state \<open>s\<close>.  These are the calls of a loop that ends without a
  failure; where an iteration fails, the list ends with that iteration and may hold the
  call the failure came before.
\<close>

type_synonym extraction = "arg \<times> string \<times> string list"

fun scan_calls :: "arg list \<Rightarrow> string \<Rightarrow> string list \<Rightarrow> extraction list" where
  "scan_calls [] a ts = []"
| "scan_calls (spec # opts) a ts =
     (if a \<in> set (names spec) then
        (spec, a, ts) #
          (if action spec = ''append'' then
             (case parse spec a ts of
                Inl e \<Rightarrow> []
              | Inr (v, ts') \<Rightarrow> scan_calls opts a ts')
           else [])
      else scan_calls opts a ts)"

fun pos_calls :: "arg list \<Rightarrow> string list \<Rightarrow> extraction list" where
  "pos_calls [] ts = []"
| "pos_calls (p # ps) ts =
     (case names p of
        [] \<Rightarrow> []
      | nm # _ \<Rightarrow>
          (p, nm, ts) #
            (case parse p nm ts of
               Inl e \<Rightarrow> []
             | Inr (v, ts') \<Rightarrow> pos_calls ps ts'))"

definition body_calls :: "parser \<Rightarrow> locals \<Rightarrow> extraction list" where
  "body_calls self s =
     (case args s of
        [] \<Rightarrow> if parsed_pos s then [] else pos_calls (pos self) []
      | a # rest \<Rightarrow>
          if looks_like_option a then scan_calls (opt self) a rest
          else if parsed_pos s then [] else pos_calls (pos self) (a # rest))"

function extractions :: "parser \<Rightarrow> locals \<Rightarrow> extraction list" where
  "extractions self s =
     (if args s \<noteq> [] \<or> \<not> parsed_pos s then
        body_calls self s @
          (case loop_body self False s of
             Inl e \<Rightarrow> []
           | Inr (brk, s') \<Rightarrow> if brk then [] else extractions self s')
      else [])"
  by pat_completeness auto
termination
proof (relation "measure (\<lambda>(self, s). 2 * length (args s) + (if parsed_pos s then 0 else 1))")
  show "wf (measure (\<lambda>(self, s). 2 * length (args s) + (if parsed_pos s then 0 else 1)))"
    by simp
next
  fix self :: parser and s :: locals and x2 :: "bool \<times> locals" and brk :: bool and s' :: locals
  assume "loop_body self False s = Inr x2" "(brk, s') = x2" "\<not> brk"
  then have "loop_body self False s = Inr (False, s')" by simp
  from loop_body_decreases[OF this]
  show "((self, s'), (self, s))
          \<in> measure (\<lambda>(self, s). 2 * length (args s) + (if parsed_pos s then 0 else 1))"
    by simp
qed

text \<open>
  The token \<open>U\<close> is left alone by the extraction \<open>c\<close>: if the call returns \<open>v\<close> having used up
  all its tokens, then on the same tokens followed by \<open>U\<close> it returns \<open>v\<close> again and leaves
  \<open>U\<close>.  An extraction that stops before the end of its tokens never looks at \<open>U\<close>.
\<close>

definition leaves :: "string \<Rightarrow> extraction \<Rightarrow> bool" where
  "leaves U c =
     (case c of (spec, nm, ts) \<Rightarrow>
        (case parse spec nm ts of
           Inl e \<Rightarrow> True
         | Inr (v, ts') \<Rightarrow>
             if ts' = [] then parse spec nm (ts @ [U]) = Inr (v, [U]) else True))"

declare extractions.simps [simp del]

section \<open>Example parsers and stores\<close>

definition empty_store :: store where
  "empty_store = (\<lambda>_. [])"

text \<open>A store whose only object is the caller's token list, at address 0.\<close>

definition tokens :: "string list \<Rightarrow> store" where
  "tokens ts = (\<lambda>_. [])(0 := map PStr ts)"

text \<open>
  \<open>add_argument("--count", type=int, default=0)\<close>, \<open>add_argument("name", type=str)\<close> and
  \<open>add_argument("--flag", action="store_true")\<close>.
\<close>

definition count_spec :: arg where
  "count_spec = mk_arg (no_kwargs\<lparr>kw_type := Some py_int_conv, kw_default := Some (PInt 0)\<rparr>)
     [''--count''] ''count''"

definition name_spec :: arg where
  "name_spec = mk_arg (no_kwargs\<lparr>kw_type := Some py_str\<rparr>) [''name''] ''name''"

definition count_name_parser :: parser where
  "count_name_parser = \<lparr>opt = [count_spec], pos = [name_spec]\<rparr>"

definition flag_spec :: arg where
  "flag_spec = mk_arg (no_kwargs\<lparr>kw_action := Some ''store_true''\<rparr>) [''--flag''] ''flag''"

text \<open>Two specs as \<open>add_argument\<close> builds them, with \<open>nargs="+"\<close> and with \<open>nargs="*"\<close>.\<close>

definition plus_spec :: arg where
  "plus_spec = mk_arg (no_kwargs\<lparr>kw_nargs := Some (NStr ''+'')\<rparr>) [''--xs''] ''xs''"

definition star_spec :: arg where
  "star_spec = mk_arg (no_kwargs\<lparr>kw_nargs := Some (NStr ''*'')\<rparr>) [''--xs''] ''xs''"

text \<open>\<open>add_argument("--xs", nargs=2)\<close>.\<close>

definition two_spec :: arg where
  "two_spec = mk_arg (no_kwargs\<lparr>kw_nargs := Some (NInt 2)\<rparr>) [''--xs''] ''xs''"

text \<open>\<open>add_argument("--q", nargs="?")\<close>.\<close>

definition optional_spec :: arg where
  "optional_spec = mk_arg (no_kwargs\<lparr>kw_nargs := Some (NStr ''?'')\<rparr>) [''--q''] ''q''"

text \<open>\<open>add_argument("--n", required=True)\<close>, and the same with \<open>default=0\<close>.\<close>

definition required_spec :: arg where
  "required_spec = mk_arg (no_kwargs\<lparr>kw_required := Some True\<rparr>) [''--n''] ''n''"

definition required_default_spec :: arg where
  "required_default_spec =
     mk_arg (no_kwargs\<lparr>kw_required := Some True, kw_default := Some (PInt 0)\<rparr>) [''--n''] ''n''"

text \<open>\<open>add_argument("--x", action="append", default=L)\<close>, with the list \<open>L\<close> at address \<open>r\<close>.\<close>

definition append_spec :: "nat \<Rightarrow> arg" where
  "append_spec r =
     mk_arg (no_kwargs\<lparr>kw_action := Some ''append'', kw_default := Some (PRef r)\<rparr>) [''--x''] ''x''"

text \<open>\<open>add_argument("--flag", action="store_const", required=True)\<close>: no \<open>const\<close> is given.\<close>

definition required_flag_spec :: arg where
  "required_flag_spec =
     mk_arg (no_kwargs\<lparr>kw_action := Some ''store_const'', kw_required := Some True\<rparr>)
       [''--flag''] ''flag''"

text \<open>
  \<open>add_argument("--n", required=True)\<close>, \<open>add_argument("--count", type=int, default=0)\<close> and
  \<open>add_argument("name", type=str)\<close>.
\<close>

definition required_count_name_parser :: parser where
  "required_count_name_parser = \<lparr>opt = [required_spec, count_spec], pos = [name_spec]\<rparr>"

text \<open>\<open>add_argument("--q", nargs="?")\<close> and \<open>add_argument("--xs", nargs=2)\<close>.\<close>

definition optional_two_parser :: parser where
  "optional_two_parser = \<lparr>opt = [optional_spec, two_spec], pos = []\<rparr>"

section \<open>The main loop, one iteration at a time\<close>

lemma main_loop_done: "args s = [] \<Longrightarrow> parsed_pos s \<Longrightarrow> main_loop P ru s = Inr s"
  by (subst main_loop.simps) simp

lemma main_loop_fail:
  "args s \<noteq> [] \<or> \<not> parsed_pos s \<Longrightarrow> loop_body P ru s = Inl e \<Longrightarrow> main_loop P ru s = Inl e"
  by (subst main_loop.simps) simp

lemma main_loop_break:
  "args s \<noteq> [] \<or> \<not> parsed_pos s \<Longrightarrow> loop_body P ru s = Inr (True, s') \<Longrightarrow>
     main_loop P ru s = Inr s'"
  by (subst main_loop.simps) simp

lemma main_loop_continue:
  "args s \<noteq> [] \<or> \<not> parsed_pos s \<Longrightarrow> loop_body P ru s = Inr (False, s') \<Longrightarrow>
     main_loop P ru s = main_loop P ru s'"
  by (subst main_loop.simps) simp

lemma extractions_continue:
  "args s \<noteq> [] \<or> \<not> parsed_pos s \<Longrightarrow> loop_body P False s = Inr (False, s1) \<Longrightarrow>
     extractions P s = body_calls P s @ extractions P s1"
  by (subst extractions.simps) simp

lemma parse_positionals_vals:
  "parse_positionals ps ts dests vals = Inr (ts', dests', vals') \<Longrightarrow> prefix vals vals'"
proof (induction ps arbitrary: ts dests vals)
  case Nil
  then show ?case by simp
next
  case (Cons p ps)
  then show ?case
    by (auto split: list.splits sum.splits prod.splits dest: append_prefixD)
qed

section \<open>Value extraction: missing values\<close>

lemma checked_not_missing: "checked self t \<noteq> Inl (Raised (MissingValue m))"
  by (simp add: checked_def split: option.splits)

lemma collect_not_missing:
  "collect self ts n stop ret \<noteq> Inl (Raised (MissingValue m))"
proof (induction ts arbitrary: n stop ret)
  case Nil
  show ?case by simp
next
  case (Cons t ts)
  show ?case
    using Cons.IH checked_not_missing[of self t m]
    by (auto split: sum.splits)
qed

lemma collect_negative:
  "n < 0 \<Longrightarrow> collect self ts n stop ret = Inr (ret', ts', n') \<Longrightarrow> n' < 0"
proof (induction ts arbitrary: n stop ret)
  case Nil
  then show ?case by simp
next
  case (Cons t ts)
  show ?case
  proof (cases "stop \<and> startswith t ''-'' \<and> t \<noteq> ''-''")
    case True
    with Cons.prems Cons.IH[of n False ret] show ?thesis
      by (auto split: if_splits)
  next
    case False
    with Cons.prems obtain v where "collect self ts (n - 1) stop (ret @ [v]) = Inr (ret', ts', n')"
      by (auto split: sum.splits if_splits)
    with Cons.IH[of "n - 1" stop "ret @ [v]"] Cons.prems(1) show ?thesis by simp
  qed
qed

lemma collect_n_negative_not_missing:
  "n < 0 \<Longrightarrow> collect_n self optname ts n \<noteq> Inl (Raised (MissingValue m))"
  using collect_not_missing[of self ts n True "[]" m] collect_negative[of n self ts True "[]"]
  by (auto simp: collect_n_def split: sum.splits prod.splits)

text \<open>
  C7.  For a spec with action \<open>store\<close> or \<open>append\<close>: under \<open>nargs = "+"\<close> the extraction
  fails with \<open>MissingValue\<close> exactly when the remaining tokens are empty; under
  \<open>nargs = "*"\<close> it returns the empty list on no tokens, and never fails with
  \<open>MissingValue\<close>, whatever the tokens are.
\<close>

theorem C7_missing_value_arity:
  assumes "action self = ''store'' \<or> action self = ''append''"
  shows "(nargs self = NStr ''+'' \<longrightarrow>
            ((\<exists>m. parse self optname ts = Inl (Raised (MissingValue m))) \<longleftrightarrow> ts = []))
       \<and> (nargs self = NStr ''*'' \<longrightarrow>
            parse self optname [] = Inr (PList [], [])
          \<and> (\<forall>m. parse self optname ts \<noteq> Inl (Raised (MissingValue m))))"
proof (intro conjI impI)
  assume plus: "nargs self = NStr ''+''"
  show "(\<exists>m. parse self optname ts = Inl (Raised (MissingValue m))) \<longleftrightarrow> ts = []"
  proof
    assume "\<exists>m. parse self optname ts = Inl (Raised (MissingValue m))"
    then obtain m where m: "parse self optname ts = Inl (Raised (MissingValue m))" ..
    show "ts = []"
    proof (rule ccontr)
      assume "ts \<noteq> []"
      with assms plus m have "collect_n self optname ts (- 1) = Inl (Raised (MissingValue m))"
        by (simp add: parse_def)
      with collect_n_negative_not_missing[of "- 1" self optname ts m] show False by simp
    qed
  next
    assume "ts = []"
    with assms plus show "\<exists>m. parse self optname ts = Inl (Raised (MissingValue m))"
      by (simp add: parse_def)
  qed
next
  assume star: "nargs self = NStr ''*''"
  with assms show "parse self optname [] = Inr (PList [], [])"
    by (simp add: parse_def collect_n_def)
next
  assume star: "nargs self = NStr ''*''"
  show "\<forall>m. parse self optname ts \<noteq> Inl (Raised (MissingValue m))"
  proof
    fix m
    from assms star have "parse self optname ts = collect_n self optname ts (- 1)"
      by (simp add: parse_def)
    with collect_n_negative_not_missing[of "- 1" self optname ts m]
    show "parse self optname ts \<noteq> Inl (Raised (MissingValue m))" by simp
  qed
qed

theorem C7_missing_value_arity_witness:
  "(action plus_spec = ''store'' \<or> action plus_spec = ''append'')
   \<and> nargs plus_spec = NStr ''+''
   \<and> (\<exists>m. parse plus_spec ''--xs'' [] = Inl (Raised (MissingValue m)))
   \<and> (\<forall>m. parse plus_spec ''--xs'' [''a''] \<noteq> Inl (Raised (MissingValue m)))
   \<and> (action star_spec = ''store'' \<or> action star_spec = ''append'')
   \<and> nargs star_spec = NStr ''*''
   \<and> parse star_spec ''--xs'' [] = Inr (PList [], [])"
proof -
  have a1: "action plus_spec = ''store'' \<or> action plus_spec = ''append''"
    by (simp add: plus_spec_def mk_arg_def no_kwargs_def kw_get_def)
  have n1: "nargs plus_spec = NStr ''+''"
    by (simp add: plus_spec_def mk_arg_def no_kwargs_def kw_get_def)
  have a2: "action star_spec = ''store'' \<or> action star_spec = ''append''"
    by (simp add: star_spec_def mk_arg_def no_kwargs_def kw_get_def)
  have n2: "nargs star_spec = NStr ''*''"
    by (simp add: star_spec_def mk_arg_def no_kwargs_def kw_get_def)
  from C7_missing_value_arity[OF a1, of "''--xs''" "[]"] n1
  have w1: "\<exists>m. parse plus_spec ''--xs'' [] = Inl (Raised (MissingValue m))" by simp
  from C7_missing_value_arity[OF a1, of "''--xs''" "[''a'']"] n1
  have w2: "\<forall>m. parse plus_spec ''--xs'' [''a''] \<noteq> Inl (Raised (MissingValue m))" by simp
  from C7_missing_value_arity[OF a2, of "''--xs''" "[]"] n2
  have w3: "parse star_spec ''--xs'' [] = Inr (PList [], [])" by simp
  from a1 n1 w1 w2 a2 n2 w3 show ?thesis by blast
qed

section \<open>The example parsers are what \<open>add_argument\<close> registers\<close>

lemma count_name_registered:
  "add_argument empty_parser [''--count'']
      (no_kwargs\<lparr>kw_type := Some py_int_conv, kw_default := Some (PInt 0)\<rparr>)
     = Inr \<lparr>opt = [count_spec], pos = []\<rparr>
   \<and> add_argument \<lparr>opt = [count_spec], pos = []\<rparr> [''name''] (no_kwargs\<lparr>kw_type := Some py_str\<rparr>)
     = Inr count_name_parser"
  by (simp add: add_argument_def dest_from_optnames_def startswith_def no_kwargs_def
      empty_parser_def count_spec_def name_spec_def count_name_parser_def
      replace_dash_def lstrip_dash_def)

lemma flag_registered:
  "add_argument empty_parser [''--flag''] (no_kwargs\<lparr>kw_action := Some ''store_true''\<rparr>)
     = Inr \<lparr>opt = [flag_spec], pos = []\<rparr>
   \<and> add_argument \<lparr>opt = [flag_spec], pos = []\<rparr> [''name''] (no_kwargs\<lparr>kw_type := Some py_str\<rparr>)
     = Inr \<lparr>opt = [flag_spec], pos = [name_spec]\<rparr>"
  by (simp add: add_argument_def dest_from_optnames_def startswith_def no_kwargs_def
      empty_parser_def flag_spec_def name_spec_def replace_dash_def lstrip_dash_def)

lemma example_specs_registered:
  "add_argument empty_parser [''--xs''] (no_kwargs\<lparr>kw_nargs := Some (NStr ''+'')\<rparr>)
     = Inr \<lparr>opt = [plus_spec], pos = []\<rparr>
   \<and> add_argument empty_parser [''--xs''] (no_kwargs\<lparr>kw_nargs := Some (NStr ''*'')\<rparr>)
     = Inr \<lparr>opt = [star_spec], pos = []\<rparr>
   \<and> add_argument empty_parser [''--xs''] (no_kwargs\<lparr>kw_nargs := Some (NInt 2)\<rparr>)
     = Inr \<lparr>opt = [two_spec], pos = []\<rparr>
   \<and> add_argument empty_parser [''--q''] (no_kwargs\<lparr>kw_nargs := Some (NStr ''?'')\<rparr>)
     = Inr \<lparr>opt = [optional_spec], pos = []\<rparr>
   \<and> add_argument empty_parser [''--n''] (no_kwargs\<lparr>kw_required := Some True\<rparr>)
     = Inr \<lparr>opt = [required_spec], pos = []\<rparr>
   \<and> add_argument empty_parser [''--n'']
       (no_kwargs\<lparr>kw_required := Some True, kw_default := Some (PInt 0)\<rparr>)
     = Inr \<lparr>opt = [required_default_spec], pos = []\<rparr>
   \<and> add_argument empty_parser [''--x'']
       (no_kwargs\<lparr>kw_action := Some ''append'', kw_default := Some (PRef r)\<rparr>)
     = Inr \<lparr>opt = [append_spec r], pos = []\<rparr>"
  by (simp add: add_argument_def dest_from_optnames_def startswith_def no_kwargs_def
      empty_parser_def plus_spec_def star_spec_def two_spec_def optional_spec_def
      required_spec_def required_default_spec_def append_spec_def
      replace_dash_def lstrip_dash_def)

lemma composed_parsers_registered:
  "add_argument \<lparr>opt = [required_spec], pos = []\<rparr> [''--count'']
       (no_kwargs\<lparr>kw_type := Some py_int_conv, kw_default := Some (PInt 0)\<rparr>)
     = Inr \<lparr>opt = [required_spec, count_spec], pos = []\<rparr>
   \<and> add_argument \<lparr>opt = [required_spec, count_spec], pos = []\<rparr> [''name'']
       (no_kwargs\<lparr>kw_type := Some py_str\<rparr>)
     = Inr required_count_name_parser
   \<and> add_argument \<lparr>opt = [optional_spec], pos = []\<rparr> [''--xs'']
       (no_kwargs\<lparr>kw_nargs := Some (NInt 2)\<rparr>)
     = Inr optional_two_parser"
  by (simp add: add_argument_def dest_from_optnames_def startswith_def no_kwargs_def
      count_spec_def name_spec_def two_spec_def required_count_name_parser_def
      optional_two_parser_def replace_dash_def lstrip_dash_def)

section \<open>Registration: the derived \<open>dest\<close>\<close>

lemma first_long_filter:
  "first_long ns d = (case filter (\<lambda>n. startswith n ''--'') ns of [] \<Rightarrow> d | l # _ \<Rightarrow> l)"
  by (induction ns) auto

text \<open>
  C1 (as amended).  A named registration without an explicit \<open>dest\<close> appends one spec to
  \<open>opt\<close>, and its \<open>dest\<close> comes from the first spelling in declaration order that starts
  with \<open>--\<close>, or from the first spelling when none does; leading dashes are stripped and the
  other dashes become underscores.
\<close>

theorem C1_dest_from_first_long:
  assumes "ns \<noteq> []" and "startswith (hd ns) ''-''" and "kw_dest kw = None"
  shows "\<exists>spec. add_argument P ns kw = Inr (P\<lparr>opt := opt P @ [spec]\<rparr>)
           \<and> names spec = ns
           \<and> dest spec = replace_dash (lstrip_dash
                (case filter (\<lambda>n. startswith n ''--'') ns of [] \<Rightarrow> hd ns | l # _ \<Rightarrow> l))"
proof -
  from assms(1) obtain n0 rest where ns: "ns = n0 # rest" by (cases ns) auto
  let ?d = "replace_dash (lstrip_dash (first_long ns n0))"
  have "add_argument P ns kw = Inr (P\<lparr>opt := opt P @ [mk_arg kw ns ?d]\<rparr>)"
    using assms ns by (simp add: add_argument_def dest_from_optnames_def)
  moreover have "names (mk_arg kw ns ?d) = ns" "dest (mk_arg kw ns ?d) = ?d"
    by (simp_all add: mk_arg_def Let_def)
  moreover have "first_long ns n0
      = (case filter (\<lambda>n. startswith n ''--'') ns of [] \<Rightarrow> hd ns | l # _ \<Rightarrow> l)"
    unfolding ns by (simp add: first_long_filter split: list.splits)
  ultimately show ?thesis by metis
qed

theorem C1_dest_from_first_long_witness:
  "[''-f'', ''--foo-bar'', ''--baz''] \<noteq> [] \<and> startswith (hd [''-f'', ''--foo-bar'', ''--baz'']) ''-''
   \<and> kw_dest no_kwargs = None
   \<and> (\<exists>spec. add_argument empty_parser [''-f'', ''--foo-bar'', ''--baz''] no_kwargs
                = Inr (empty_parser\<lparr>opt := opt empty_parser @ [spec]\<rparr>)
         \<and> names spec = [''-f'', ''--foo-bar'', ''--baz''] \<and> dest spec = ''foo_bar'')"
proof -
  have h1: "[''-f'', ''--foo-bar'', ''--baz''] \<noteq> []" by simp
  have h2: "startswith (hd [''-f'', ''--foo-bar'', ''--baz'']) ''-''" by (simp add: startswith_def)
  have h3: "kw_dest no_kwargs = None" by (simp add: no_kwargs_def)
  have d: "replace_dash (lstrip_dash
      (case filter (\<lambda>n. startswith n ''--'') [''-f'', ''--foo-bar'', ''--baz''] of
         [] \<Rightarrow> hd [''-f'', ''--foo-bar'', ''--baz''] | l # _ \<Rightarrow> l)) = ''foo_bar''"
    by (simp add: startswith_def replace_dash_def lstrip_dash_def)
  from C1_dest_from_first_long[OF h1 h2 h3, of empty_parser] d h1 h2 h3
  show ?thesis by simp
qed

text \<open>
  With two long spellings the source takes the first, \<open>foo\<close>, where the rule worded with
  "last" gives \<open>bar\<close>.
\<close>

theorem C1_last_long_counterexample:
  "add_argument empty_parser [''--foo'', ''--bar''] no_kwargs
     = Inr \<lparr>opt = [mk_arg no_kwargs [''--foo'', ''--bar''] ''foo''], pos = []\<rparr>
   \<and> dest (mk_arg no_kwargs [''--foo'', ''--bar''] ''foo'') = ''foo''
   \<and> spec_dest_last_long [''--foo'', ''--bar''] = ''bar''"
  by (simp add: add_argument_def dest_from_optnames_def startswith_def no_kwargs_def
      empty_parser_def mk_arg_def kw_get_def replace_dash_def lstrip_dash_def
      spec_dest_last_long_def)

section \<open>The concrete scenario\<close>

lemma py_int_3: "py_int ''3'' = Some 3"
  by (simp add: py_int_def is_space_def parse_decimal_def is_digit_def digit_val_def)

lemma py_int_x: "py_int ''x'' = None"
  by (simp add: py_int_def is_space_def parse_decimal_def is_digit_def digit_val_def)

text \<open>
  C4.  The parser with \<open>--count\<close> (type int, default 0) and the positional \<open>name\<close>:
  \<open>["--count", "3", "alice"]\<close> gives count 3 and name alice, \<open>["alice"]\<close> gives count 0
  and name alice, and \<open>["--count", "x", "alice"]\<close> ends in the error exit with
  \<open>InvalidValue\<close>.
\<close>

theorem C4_count_name_scenario:
  "parse_args count_name_parser (Some 0) [] (tokens [''--count'', ''3'', ''alice''])
     = Inr (Values [(''count'', PInt 3), (''name'', PStr ''alice'')],
            tokens [''--count'', ''3'', ''alice''])
   \<and> parse_args count_name_parser (Some 0) [] (tokens [''alice''])
     = Inr (Values [(''count'', PInt 0), (''name'', PStr ''alice'')], tokens [''alice''])
   \<and> parse_args count_name_parser (Some 0) [] (tokens [''--count'', ''x'', ''alice''])
     = Inl (ErrorExit (InvalidValue ''x''), tokens [''--count'', ''x'', ''alice''])"
  by (simp add: parse_args_def parse_args_impl_def parse_args_core_def init_locals_def
      main_loop.simps loop_body_def named_branch_def positional_branch_def
      looks_like_option_def startswith_def parse_def checked_def required_but_not_used_def
      enumerate_eq_zip mk_arg_def no_kwargs_def kw_get_def py_str_def py_int_conv_def
      count_name_parser_def count_spec_def name_spec_def tokens_def py_int_3 py_int_x)

section \<open>Constant actions\<close>

lemma parse_store_const: "action self = ''store_const'' \<Longrightarrow> parse self optname ts = Inr (const self, ts)"
  by (simp add: parse_def)

lemma parse_single_str:
  assumes "action p = ''store''" "nargs p = NNone" "arg_type p = py_str" "choices p = None"
  shows "parse p nm (t # ts) = Inr (PStr t, ts)"
  using assms by (simp add: parse_def checked_def py_str_def)

lemma looks_like_option_flag: "looks_like_option ''--flag''"
  by (simp add: looks_like_option_def startswith_def)

lemma not_looks_like_option_x: "\<not> looks_like_option ''x''"
  by (simp add: looks_like_option_def startswith_def)

lemma required_flag_registered:
  "add_argument empty_parser [''--flag'']
       (no_kwargs\<lparr>kw_action := Some ''store_const'', kw_required := Some True\<rparr>)
     = Inr \<lparr>opt = [required_flag_spec], pos = []\<rparr>
   \<and> add_argument \<lparr>opt = [required_flag_spec], pos = []\<rparr> [''name'']
       (no_kwargs\<lparr>kw_type := Some py_str\<rparr>)
     = Inr \<lparr>opt = [required_flag_spec], pos = [name_spec]\<rparr>"
  by (simp add: add_argument_def dest_from_optnames_def startswith_def no_kwargs_def
      empty_parser_def required_flag_spec_def name_spec_def replace_dash_def lstrip_dash_def)

text \<open>
  The two iterations on \<open>["--flag", "x"]\<close>: the flag takes its constant and pops nothing, the
  positional takes \<open>x\<close>.
\<close>

lemma flag_scenario_loop:
  assumes flag: "action flag = ''store_const''"
    and spelling: "''--flag'' \<in> set (names flag)"
    and p: "action p = ''store''" "nargs p = NNone" "arg_type p = py_str" "choices p = None"
    and nm: "names p \<noteq> []"
  shows "main_loop \<lparr>opt = [flag], pos = [p]\<rparr> False
           (init_locals \<lparr>opt = [flag], pos = [p]\<rparr> [''--flag'', ''x''] st)
       = Inr \<lparr>args = [], parsed_pos = True, arg_dest = [dest flag, dest p],
              arg_vals = [const flag, PStr ''x''], unknown = [], store = st\<rparr>"
proof -
  let ?P = "\<lparr>opt = [flag], pos = [p]\<rparr>"
  let ?s0 = "init_locals ?P [''--flag'', ''x''] st"
  let ?s1 = "\<lparr>args = [''x''], parsed_pos = False, arg_dest = [dest flag],
              arg_vals = [const flag], unknown = [], store = st\<rparr>"
  let ?s2 = "\<lparr>args = [], parsed_pos = True, arg_dest = [dest flag, dest p],
              arg_vals = [const flag, PStr ''x''], unknown = [], store = st\<rparr>"
  from flag have not_append: "action flag \<noteq> ''append''" by simp
  have step1: "loop_body ?P False ?s0 = Inr (False, ?s1)"
    using spelling not_append parse_store_const[OF flag]
    by (simp add: loop_body_def init_locals_def looks_like_option_flag named_branch_def)
  obtain n0 ns where names_p: "names p = n0 # ns"
    using nm by (cases "names p") auto
  have step2: "loop_body ?P False ?s1 = Inr (False, ?s2)"
    using names_p parse_single_str[OF p]
    by (simp add: loop_body_def not_looks_like_option_x positional_branch_def)
  have "main_loop ?P False ?s2 = Inr ?s2"
    by (simp add: main_loop_done)
  then have "main_loop ?P False ?s1 = Inr ?s2"
    using main_loop_continue[OF _ step2] by simp
  moreover have "args ?s0 \<noteq> []" by (simp add: init_locals_def)
  ultimately show ?thesis
    using main_loop_continue[OF _ step1] by simp
qed

text \<open>
  C9 (as amended).  A \<open>store_const\<close> spec returns \<open>const\<close> and leaves the tokens as they are,
  for every spelling and every token list.  So \<open>["--flag", "x"]\<close>, with a \<open>store_const\<close> flag
  spelled \<open>--flag\<close> and one positional of a single string token, binds the flag to its
  constant and the positional to \<open>x\<close>, unless the flag is required and its constant is
  \<open>None\<close>.
\<close>

theorem C9_store_const_consumes_nothing:
  assumes flag: "action flag = ''store_const''"
  shows "parse flag optname ts = Inr (const flag, ts)
       \<and> (''--flag'' \<in> set (names flag) \<and> \<not> (required flag \<and> const flag = PNone)
          \<and> action p = ''store'' \<and> nargs p = NNone \<and> arg_type p = py_str \<and> choices p = None
          \<and> names p \<noteq> [] \<and> st r = [PStr ''--flag'', PStr ''x''] \<longrightarrow>
            parse_args \<lparr>opt = [flag], pos = [p]\<rparr> (Some r) argv st
              = Inr (Values [(dest flag, const flag), (dest p, PStr ''x'')], st))"
proof (intro conjI impI)
  show "parse flag optname ts = Inr (const flag, ts)"
    using flag by (rule parse_store_const)
next
  let ?P = "\<lparr>opt = [flag], pos = [p]\<rparr>"
  assume h: "''--flag'' \<in> set (names flag) \<and> \<not> (required flag \<and> const flag = PNone)
          \<and> action p = ''store'' \<and> nargs p = NNone \<and> arg_type p = py_str \<and> choices p = None
          \<and> names p \<noteq> [] \<and> st r = [PStr ''--flag'', PStr ''x'']"
  then have loop: "main_loop ?P False (init_locals ?P [''--flag'', ''x''] st)
       = Inr \<lparr>args = [], parsed_pos = True, arg_dest = [dest flag, dest p],
              arg_vals = [const flag, PStr ''x''], unknown = [], store = st\<rparr>"
    using flag by (intro flag_scenario_loop) simp_all
  have "required_but_not_used [flag] [const flag, PStr ''x''] = []"
    using h by (auto simp: required_but_not_used_def enumerate_eq_zip)
  with loop have "parse_args_core ?P [''--flag'', ''x''] False st
      = Inr (Values [(dest flag, const flag), (dest p, PStr ''x'')], st)"
    by (simp add: parse_args_core_def)
  with h show "parse_args ?P (Some r) argv st
      = Inr (Values [(dest flag, const flag), (dest p, PStr ''x'')], st)"
    by (simp add: parse_args_def parse_args_impl_def)
qed

theorem C9_store_const_consumes_nothing_witness:
  "action flag_spec = ''store_const'' \<and> ''--flag'' \<in> set (names flag_spec)
   \<and> \<not> (required flag_spec \<and> const flag_spec = PNone)
   \<and> action name_spec = ''store'' \<and> nargs name_spec = NNone \<and> arg_type name_spec = py_str
   \<and> choices name_spec = None \<and> names name_spec \<noteq> []
   \<and> tokens [''--flag'', ''x''] 0 = [PStr ''--flag'', PStr ''x'']
   \<and> parse flag_spec ''--flag'' [''x''] = Inr (PBool True, [''x''])
   \<and> parse_args \<lparr>opt = [flag_spec], pos = [name_spec]\<rparr> (Some 0) [] (tokens [''--flag'', ''x''])
       = Inr (Values [(''flag'', PBool True), (''name'', PStr ''x'')], tokens [''--flag'', ''x''])"
proof -
  have f: "action flag_spec = ''store_const''" "''--flag'' \<in> set (names flag_spec)"
      "\<not> (required flag_spec \<and> const flag_spec = PNone)"
      "const flag_spec = PBool True" "dest flag_spec = ''flag''"
    by (simp_all add: flag_spec_def mk_arg_def no_kwargs_def kw_get_def)
  have p: "action name_spec = ''store''" "nargs name_spec = NNone" "arg_type name_spec = py_str"
      "choices name_spec = None" "names name_spec \<noteq> []" "dest name_spec = ''name''"
    by (simp_all add: name_spec_def mk_arg_def no_kwargs_def kw_get_def)
  have t: "tokens [''--flag'', ''x''] 0 = [PStr ''--flag'', PStr ''x'']"
    by (simp add: tokens_def)
  from C9_store_const_consumes_nothing[where st = "tokens [''--flag'', ''x'']" and r = 0
      and optname = "''--flag''" and ts = "[''x'']" and argv = "[]" and p = name_spec,
      OF f(1)] f p t
  show ?thesis by simp
qed

text \<open>
  A required \<open>store_const\<close> flag with no \<open>const\<close>: the extraction returns \<open>None\<close> and pops
  nothing, and the parse of \<open>["--flag", "x"]\<close> ends in the required check, with the error
  exit.
\<close>

theorem C9_required_const_none_counterexample:
  "action required_flag_spec = ''store_const'' \<and> names required_flag_spec = [''--flag'']
   \<and> const required_flag_spec = PNone
   \<and> parse required_flag_spec ''--flag'' [''x''] = Inr (PNone, [''x''])
   \<and> parse_args \<lparr>opt = [required_flag_spec], pos = [name_spec]\<rparr> (Some 0) []
         (tokens [''--flag'', ''x''])
       = Inl (ErrorExit (MissingRequired [''flag'']), tokens [''--flag'', ''x''])"
  by (simp add: parse_args_def parse_args_impl_def parse_args_core_def init_locals_def
      main_loop.simps loop_body_def named_branch_def positional_branch_def
      looks_like_option_def startswith_def parse_def checked_def required_but_not_used_def
      enumerate_eq_zip mk_arg_def no_kwargs_def kw_get_def py_str_def
      required_flag_spec_def name_spec_def tokens_def)

section \<open>The sweep of the tolerant mode\<close>

lemma scan_opts_no_match:
  "\<forall>spec \<in> set opts. a \<notin> set (names spec) \<Longrightarrow>
     scan_opts opts i a ts vals st found = Inr (found, ts, vals, st)"
  by (induction opts arbitrary: i) auto

lemma consume_unknown_eq:
  "consume_unknown ts u
     = (dropWhile (\<lambda>t. \<not> startswith t ''-'') ts, u @ takeWhile (\<lambda>t. \<not> startswith t ''-'') ts)"
  by (induction ts u rule: consume_unknown.induct) auto

text \<open>
  C3 (as amended).  In the tolerant mode, when the front token looks like an option, is
  not a help spelling and matches no declared spelling, the iteration records it in
  \<open>unknown\<close> and then moves into \<open>unknown\<close> every following token up to the first one that
  starts with \<open>-\<close>; that token, \<open>-\<close> and \<open>--\<close> included, stays in \<open>args\<close> for the next
  iteration.
\<close>

theorem C3_sweep_stops_at_dash:
  assumes "looks_like_option a" and "a \<noteq> ''-h''" and "a \<noteq> ''--help''"
    and "\<forall>spec \<in> set (opt P). a \<notin> set (names spec)"
    and "args s = a # rest"
  shows "loop_body P True s
     = Inr (False, s\<lparr>args := dropWhile (\<lambda>t. \<not> startswith t ''-'') rest,
                     unknown := unknown s @ [a] @ takeWhile (\<lambda>t. \<not> startswith t ''-'') rest\<rparr>)"
  using assms
  by (simp add: loop_body_def named_branch_def scan_opts_no_match consume_unknown_eq)

theorem C3_sweep_stops_at_dash_witness:
  "looks_like_option ''--unk'' \<and> ''--unk'' \<noteq> ''-h'' \<and> ''--unk'' \<noteq> ''--help''
   \<and> ''--unk'' \<notin> set (names count_spec)
   \<and> loop_body count_name_parser True
        (init_locals count_name_parser [''--unk'', ''a'', ''b'', ''-'', ''c''] empty_store)
     = Inr (False, \<lparr>args = [''-'', ''c''], parsed_pos = False, arg_dest = [''count''],
                    arg_vals = [PInt 0], unknown = [''--unk'', ''a'', ''b''],
                    store = empty_store\<rparr>)"
proof -
  let ?P = "count_name_parser"
  have c: "names count_spec = [''--count'']" "dest count_spec = ''count''"
      "default count_spec = PInt 0"
    by (simp_all add: count_spec_def mk_arg_def no_kwargs_def kw_get_def Let_def)
  have h1: "looks_like_option ''--unk''" by (simp add: looks_like_option_def startswith_def)
  have h2: "''--unk'' \<noteq> ''-h''" "''--unk'' \<noteq> ''--help''" by simp_all
  have h3: "\<forall>spec \<in> set (opt ?P). ''--unk'' \<notin> set (names spec)"
    by (simp add: count_name_parser_def c)
  have h4: "args (init_locals ?P [''--unk'', ''a'', ''b'', ''-'', ''c''] empty_store)
      = ''--unk'' # [''a'', ''b'', ''-'', ''c'']"
    by (simp add: init_locals_def)
  from C3_sweep_stops_at_dash[OF h1 h2 h3 h4] h1 h2 c
  show ?thesis
    by (simp add: init_locals_def startswith_def count_name_parser_def)
qed

text \<open>
  The token \<open>-\<close> does not look like an option by the test of the main loop, yet the sweep
  leaves it in \<open>args\<close>; the positional phase then binds it to \<open>name\<close>.
\<close>

theorem C3_dash_not_absorbed_counterexample:
  "\<not> looks_like_option ''-''
   \<and> loop_body count_name_parser True
        (init_locals count_name_parser [''--unk'', ''-'', ''x''] empty_store)
     = Inr (False, \<lparr>args = [''-'', ''x''], parsed_pos = False, arg_dest = [''count''],
                    arg_vals = [PInt 0], unknown = [''--unk''], store = empty_store\<rparr>)
   \<and> parse_known_args count_name_parser (Some 0) [] (tokens [''--unk'', ''-'', ''x''])
     = Inr (ValuesUnknown [(''count'', PInt 0), (''name'', PStr ''-'')] [''--unk'', ''x''],
            tokens [''--unk'', ''-'', ''x''])"
  by (simp add: parse_known_args_def parse_args_impl_def parse_args_core_def init_locals_def
      main_loop.simps loop_body_def named_branch_def positional_branch_def
      looks_like_option_def startswith_def parse_def checked_def required_but_not_used_def
      enumerate_eq_zip mk_arg_def no_kwargs_def kw_get_def py_str_def py_int_conv_def
      count_name_parser_def count_spec_def name_spec_def tokens_def)

section \<open>The required check\<close>

lemma required_but_not_used_index:
  "required_but_not_used opts vals
     = map (\<lambda>i. dest (opts ! i))
         (filter (\<lambda>i. required (opts ! i) \<and> vals ! i = PNone) [0..<length opts])"
proof -
  have "enumerate 0 opts = map (\<lambda>i. (i, opts ! i)) [0..<length opts]"
    by (simp add: enumerate_eq_zip zip_eq_conv comp_def map_nth)
  then show ?thesis
    by (simp add: required_but_not_used_def filter_map comp_def)
qed

lemma required_but_not_used_empty:
  "required_but_not_used opts vals = []
     \<longleftrightarrow> \<not> (\<exists>i<length opts. required (opts ! i) \<and> vals ! i = PNone)"
  by (auto simp: required_but_not_used_index filter_empty_conv)

lemma main_loop_no_tokens_no_positionals:
  assumes "pos P = []"
  shows "main_loop P ru (init_locals P [] st) = Inr ((init_locals P [] st)\<lparr>parsed_pos := True\<rparr>)"
proof -
  let ?s0 = "init_locals P [] st"
  let ?s1 = "?s0\<lparr>parsed_pos := True\<rparr>"
  have step: "loop_body P ru ?s0 = Inr (False, ?s1)"
    using assms by (simp add: loop_body_def positional_branch_def init_locals_def Let_def)
  have "main_loop P ru ?s1 = Inr ?s1"
    by (subst main_loop.simps) (simp add: init_locals_def)
  with step show ?thesis
    by (subst main_loop.simps) (simp add: init_locals_def)
qed

text \<open>
  A slot of \<open>arg_vals\<close> changes only in an iteration that pops one of the spellings of its
  spec: while none of them is among the tokens, the slot keeps its value.
\<close>

lemma scan_opts_slot:
  "scan_opts opts i0 a ts vals st found = Inr (f, ts', vals', st') \<Longrightarrow>
     length vals' = length vals
     \<and> (\<forall>k. k < i0 \<or> i0 + length opts \<le> k \<or> a \<notin> set (names (opts ! (k - i0)))
            \<longrightarrow> vals' ! k = vals ! k)"
proof (induction opts arbitrary: i0 ts vals st found)
  case Nil
  then show ?case by simp
next
  case (Cons spec opts)
  let ?concl = "length vals' = length vals
     \<and> (\<forall>k. k < i0 \<or> i0 + length (spec # opts) \<le> k
              \<or> a \<notin> set (names ((spec # opts) ! (k - i0)))
            \<longrightarrow> vals' ! k = vals ! k)"
  have step: ?concl
    if run: "scan_opts opts (Suc i0) a ts1 vals1 st1 f1 = Inr (f, ts', vals', st')"
      and len: "length vals1 = length vals"
      and same: "\<forall>k. k \<noteq> i0 \<longrightarrow> vals1 ! k = vals ! k"
      and here: "a \<notin> set (names spec) \<longrightarrow> vals1 ! i0 = vals ! i0"
    for ts1 vals1 st1 f1
  proof -
    from Cons.IH[OF run]
    have l: "length vals' = length vals1"
      and r: "\<forall>k. k < Suc i0 \<or> Suc i0 + length opts \<le> k
                  \<or> a \<notin> set (names (opts ! (k - Suc i0))) \<longrightarrow> vals' ! k = vals1 ! k"
      by auto
    have "vals' ! k = vals ! k"
      if k: "k < i0 \<or> i0 + length (spec # opts) \<le> k
              \<or> a \<notin> set (names ((spec # opts) ! (k - i0)))" for k
    proof (cases "k = i0")
      case True
      with k have "a \<notin> set (names spec)" by simp
      with here r True show ?thesis by simp
    next
      case False
      show ?thesis
      proof (cases "k < i0")
        case True
        with r same False show ?thesis by simp
      next
        case ge: False
        with False have gt: "i0 < k" by simp
        then have "k - i0 = Suc (k - Suc i0)" by simp
        then have "(spec # opts) ! (k - i0) = opts ! (k - Suc i0)"
          by (simp only: nth_Cons_Suc)
        with k gt have "Suc i0 + length opts \<le> k \<or> a \<notin> set (names (opts ! (k - Suc i0)))"
          by auto
        with r same False show ?thesis by auto
      qed
    qed
    with l len show ?thesis by simp
  qed
  show ?case
  proof (cases "a \<in> set (names spec)")
    case False
    with Cons.prems have "scan_opts opts (Suc i0) a ts vals st found = Inr (f, ts', vals', st')"
      by simp
    from step[OF this] show ?thesis by simp
  next
    case True
    show ?thesis
    proof (cases "action spec = ''append''")
      case False
      with True Cons.prems obtain v where v: "vals' = vals[i0 := v]" "i0 < length vals"
        by (auto split: sum.splits prod.splits if_splits)
      have "vals' ! k = vals ! k"
        if k: "k < i0 \<or> i0 + length (spec # opts) \<le> k
                \<or> a \<notin> set (names ((spec # opts) ! (k - i0)))" for k
      proof -
        from k True have "k \<noteq> i0" by auto
        with v show ?thesis by simp
      qed
      with v show ?thesis by simp
    next
      case app: True
      from True app Cons.prems have len: "i0 < length vals"
        by (auto split: if_splits)
      from True app len Cons.prems obtain v ts1 where p: "parse spec a ts = Inr (v, ts1)"
        by (cases "parse spec a ts") (auto split: pyval.splits)
      show ?thesis
      proof (cases "if vals ! i0 = PNone then PList [] else vals ! i0")
        case (PList xs)
        with True app len p Cons.prems
        have "scan_opts opts (Suc i0) a ts1 (vals[i0 := PList (xs @ [v])]) st True
            = Inr (f, ts', vals', st')"
          by simp
        from step[OF this] True show ?thesis by simp
      next
        case (PRef q)
        with True app len p Cons.prems
        have "scan_opts opts (Suc i0) a ts1 vals (st(q := st q @ [v])) True
            = Inr (f, ts', vals', st')"
          by simp
        from step[OF this] show ?thesis by simp
      qed (use True app len p Cons.prems in simp_all)
    qed
  qed
qed

lemma loop_body_slot:
  assumes i: "i < length (opt P)" and len: "length (opt P) \<le> length (arg_vals s)"
    and absent: "\<forall>t\<in>set (args s). t \<notin> set (names (opt P ! i))"
    and body: "loop_body P ru s = Inr (brk, s1)"
  shows "arg_vals s1 ! i = arg_vals s ! i \<and> length (opt P) \<le> length (arg_vals s1)
       \<and> set (args s1) \<subseteq> set (args s)"
proof -
  have positional: ?thesis if pb: "positional_branch P ru s = Inr (brk, s1)"
  proof (cases "parsed_pos s")
    case True
    with pb len show ?thesis
      by (auto simp: positional_branch_def split: if_splits)
  next
    case False
    with pb obtain ts1 d1 v1 where
        pp: "parse_positionals (pos P) (args s) (arg_dest s) (arg_vals s) = Inr (ts1, d1, v1)"
        and v: "arg_vals s1 = v1" and a: "suffix (args s1) ts1"
      by (auto simp: positional_branch_def Let_def split: sum.splits prod.splits if_splits
          dest: consume_unknown_suffix)
    from parse_positionals_vals[OF pp] obtain ws where ws: "v1 = arg_vals s @ ws"
      by (auto simp: prefix_def)
    from a parse_positionals_suffix[OF pp] have "suffix (args s1) (args s)"
      by (rule suffix_order.trans)
    then have "set (args s1) \<subseteq> set (args s)" by (rule set_mono_suffix)
    with v ws i len show ?thesis by (simp add: nth_append)
  qed
  show ?thesis
  proof (cases "args s")
    case Nil
    with body have "positional_branch P ru s = Inr (brk, s1)" by (simp add: loop_body_def)
    then show ?thesis by (rule positional)
  next
    case (Cons a rest)
    show ?thesis
    proof (cases "looks_like_option a")
      case False
      with body Cons have "positional_branch P ru s = Inr (brk, s1)" by (simp add: loop_body_def)
      then show ?thesis by (rule positional)
    next
      case True
      with body Cons have nb: "named_branch P ru a (s\<lparr>args := rest\<rparr>) = Inr (brk, s1)"
        by (simp add: loop_body_def)
      then obtain f ts1 v1 st1 where
          sc: "scan_opts (opt P) 0 a rest (arg_vals s) (store s) False = Inr (f, ts1, v1, st1)"
          and v: "arg_vals s1 = v1" and a: "suffix (args s1) ts1"
        by (auto simp: named_branch_def Let_def split: sum.splits prod.splits if_splits
            dest: consume_unknown_suffix)
      from absent Cons have "a \<notin> set (names (opt P ! i))" by simp
      with scan_opts_slot[OF sc] have "length v1 = length (arg_vals s)" "v1 ! i = arg_vals s ! i"
        by auto
      moreover from a scan_opts_suffix[OF sc] have "suffix (args s1) rest"
        by (rule suffix_order.trans)
      then have "set (args s1) \<subseteq> set (args s)"
        using Cons by (auto dest: set_mono_suffix)
      ultimately show ?thesis using v len by simp
    qed
  qed
qed

lemma main_loop_slot:
  assumes "i < length (opt P)" and "length (opt P) \<le> length (arg_vals s)"
    and "\<forall>t\<in>set (args s). t \<notin> set (names (opt P ! i))"
    and "main_loop P ru s = Inr s'"
  shows "arg_vals s' ! i = arg_vals s ! i"
  using assms
proof (induction P ru s rule: main_loop.induct)
  case (1 self return_unknown s)
  note i = "1.prems"(1) and len = "1.prems"(2) and absent = "1.prems"(3) and run = "1.prems"(4)
  show ?case
  proof (cases "args s \<noteq> [] \<or> \<not> parsed_pos s")
    case False
    with run show ?thesis by (simp add: main_loop_done)
  next
    case cond: True
    from run cond obtain brk s1 where body: "loop_body self return_unknown s = Inr (brk, s1)"
      by (subst (asm) main_loop.simps) (auto split: sum.splits)
    from loop_body_slot[OF i len absent body]
    have s1: "arg_vals s1 ! i = arg_vals s ! i" "length (opt self) \<le> length (arg_vals s1)"
        "set (args s1) \<subseteq> set (args s)"
      by auto
    show ?thesis
    proof (cases brk)
      case True
      with body have "loop_body self return_unknown s = Inr (True, s1)" by simp
      from main_loop_break[OF cond this] run s1(1) show ?thesis by simp
    next
      case False
      with body have b: "loop_body self return_unknown s = Inr (False, s1)" by simp
      from main_loop_continue[OF cond b] run
      have run1: "main_loop self return_unknown s1 = Inr s'" by simp
      from absent s1(3) have "\<forall>t\<in>set (args s1). t \<notin> set (names (opt self ! i))" by auto
      from "1.IH"[OF cond body refl False i s1(2) this run1] s1(1) show ?thesis by simp
    qed
  qed
qed

lemma required_count_name_loop:
  "main_loop required_count_name_parser False
       (init_locals required_count_name_parser [''--count'', ''3'', ''alice''] empty_store)
     = Inr \<lparr>args = [], parsed_pos = True, arg_dest = [''n'', ''count'', ''name''],
            arg_vals = [PNone, PInt 3, PStr ''alice''], unknown = [], store = empty_store\<rparr>"
  by (simp add: init_locals_def main_loop.simps loop_body_def named_branch_def
      positional_branch_def looks_like_option_def startswith_def parse_def checked_def
      mk_arg_def no_kwargs_def kw_get_def py_str_def py_int_conv_def
      required_count_name_parser_def required_spec_def count_spec_def name_spec_def py_int_3)

text \<open>
  C8 (as amended).  Once the loop has ended, the parse fails with \<open>MissingRequired\<close> if and
  only if some named spec with \<open>required\<close> has \<open>None\<close> at its index of \<open>arg_vals\<close>, and the
  error lists the \<open>dest\<close> of exactly those specs, in declaration order.  In particular, for
  any tokens on which the loop ends: a required named spec whose default is \<open>None\<close> and
  none of whose spellings is among the tokens, every other required spec having a value,
  makes the parse fail with \<open>MissingRequired\<close> listing exactly its \<open>dest\<close>.
\<close>

theorem C8_missing_required:
  assumes loop: "main_loop P ru (init_locals P ts st) = Inr s"
  shows "((\<exists>ds st'. parse_args_core P ts ru st = Inl (Raised (MissingRequired ds), st'))
            \<longleftrightarrow> (\<exists>i<length (opt P). required (opt P ! i) \<and> arg_vals s ! i = PNone))
       \<and> (\<forall>ds st'. parse_args_core P ts ru st = Inl (Raised (MissingRequired ds), st') \<longrightarrow>
            ds = map (\<lambda>i. dest (opt P ! i))
                   (filter (\<lambda>i. required (opt P ! i) \<and> arg_vals s ! i = PNone)
                      [0..<length (opt P)]))
       \<and> (i < length (opt P) \<and> required (opt P ! i) \<and> default (opt P ! i) = PNone
          \<and> (\<forall>t\<in>set ts. t \<notin> set (names (opt P ! i)))
          \<and> (\<forall>j<length (opt P). j \<noteq> i \<longrightarrow> \<not> (required (opt P ! j) \<and> arg_vals s ! j = PNone))
          \<longrightarrow> parse_args_core P ts ru st
                = Inl (Raised (MissingRequired [dest (opt P ! i)]), store s))"
proof (intro conjI)
  show "(\<exists>ds st'. parse_args_core P ts ru st = Inl (Raised (MissingRequired ds), st'))
            \<longleftrightarrow> (\<exists>i<length (opt P). required (opt P ! i) \<and> arg_vals s ! i = PNone)"
    using loop required_but_not_used_empty[of "opt P" "arg_vals s"]
    by (auto simp: parse_args_core_def Let_def)
  show "\<forall>ds st'. parse_args_core P ts ru st = Inl (Raised (MissingRequired ds), st') \<longrightarrow>
            ds = map (\<lambda>i. dest (opt P ! i))
                   (filter (\<lambda>i. required (opt P ! i) \<and> arg_vals s ! i = PNone)
                      [0..<length (opt P)])"
    using loop required_but_not_used_index[of "opt P" "arg_vals s"]
    by (auto simp: parse_args_core_def Let_def split: if_splits)
  show "i < length (opt P) \<and> required (opt P ! i) \<and> default (opt P ! i) = PNone
          \<and> (\<forall>t\<in>set ts. t \<notin> set (names (opt P ! i)))
          \<and> (\<forall>j<length (opt P). j \<noteq> i \<longrightarrow> \<not> (required (opt P ! j) \<and> arg_vals s ! j = PNone))
          \<longrightarrow> parse_args_core P ts ru st
                = Inl (Raised (MissingRequired [dest (opt P ! i)]), store s)"
  proof
    assume h: "i < length (opt P) \<and> required (opt P ! i) \<and> default (opt P ! i) = PNone
          \<and> (\<forall>t\<in>set ts. t \<notin> set (names (opt P ! i)))
          \<and> (\<forall>j<length (opt P). j \<noteq> i \<longrightarrow> \<not> (required (opt P ! j) \<and> arg_vals s ! j = PNone))"
    let ?s0 = "init_locals P ts st"
    from h have i: "i < length (opt P)" by simp
    have "arg_vals s ! i = arg_vals ?s0 ! i"
      using h by (intro main_loop_slot[OF i _ _ loop]) (simp_all add: init_locals_def)
    with h have none: "arg_vals s ! i = PNone" by (simp add: init_locals_def)
    have "filter (\<lambda>j. required (opt P ! j) \<and> arg_vals s ! j = PNone) [0..<length (opt P)] = [i]"
    proof -
      have "filter (\<lambda>j. required (opt P ! j) \<and> arg_vals s ! j = PNone) [0..<length (opt P)]
          = filter (\<lambda>j. j = i) [0..<length (opt P)]"
        using h none by (intro filter_cong) auto
      also have "\<dots> = [i]"
      proof -
        have "[0..<length (opt P)] = [0..<i] @ i # [Suc i..<length (opt P)]"
          using i by (metis le0 upt_conv_Cons upt_add_eq_append le_add_diff_inverse less_imp_le_nat)
        then show ?thesis by (simp add: filter_empty_conv)
      qed
      finally show ?thesis .
    qed
    then have "required_but_not_used (opt P) (arg_vals s) = [dest (opt P ! i)]"
      by (simp add: required_but_not_used_index)
    with loop show "parse_args_core P ts ru st
        = Inl (Raised (MissingRequired [dest (opt P ! i)]), store s)"
      by (simp add: parse_args_core_def)
  qed
qed

theorem C8_missing_required_witness:
  "main_loop required_count_name_parser False
       (init_locals required_count_name_parser [''--count'', ''3'', ''alice''] empty_store)
     = Inr \<lparr>args = [], parsed_pos = True, arg_dest = [''n'', ''count'', ''name''],
            arg_vals = [PNone, PInt 3, PStr ''alice''], unknown = [], store = empty_store\<rparr>
   \<and> opt required_count_name_parser ! 0 = required_spec
   \<and> required required_spec \<and> default required_spec = PNone
   \<and> names required_spec = [''--n''] \<and> \<not> required count_spec
   \<and> parse_args_core required_count_name_parser [''--count'', ''3'', ''alice''] False empty_store
        = Inl (Raised (MissingRequired [''n'']), empty_store)"
proof -
  let ?P = "required_count_name_parser"
  let ?T = "[''--count'', ''3'', ''alice'']"
  note l = required_count_name_loop
  have o: "opt ?P = [required_spec, count_spec]" by (simp add: required_count_name_parser_def)
  have r: "required required_spec" "default required_spec = PNone" "dest required_spec = ''n''"
      "names required_spec = [''--n'']" "\<not> required count_spec"
    by (simp_all add: required_spec_def count_spec_def mk_arg_def no_kwargs_def kw_get_def)
  have j: "\<forall>j<length (opt ?P). j \<noteq> 0 \<longrightarrow>
            \<not> (required (opt ?P ! j)
               \<and> arg_vals \<lparr>args = [], parsed_pos = True, arg_dest = [''n'', ''count'', ''name''],
                    arg_vals = [PNone, PInt 3, PStr ''alice''], unknown = [],
                    store = empty_store\<rparr> ! j = PNone)"
  proof (intro allI impI)
    fix j assume "j < length (opt ?P)" "j \<noteq> 0"
    then have "j = 1" by (simp add: o)
    then show "\<not> (required (opt ?P ! j)
               \<and> arg_vals \<lparr>args = [], parsed_pos = True, arg_dest = [''n'', ''count'', ''name''],
                    arg_vals = [PNone, PInt 3, PStr ''alice''], unknown = [],
                    store = empty_store\<rparr> ! j = PNone)"
      by (simp add: o)
  qed
  have h: "0 < length (opt ?P) \<and> required (opt ?P ! 0) \<and> default (opt ?P ! 0) = PNone
      \<and> (\<forall>t\<in>set ?T. t \<notin> set (names (opt ?P ! 0)))
      \<and> (\<forall>j<length (opt ?P). j \<noteq> 0 \<longrightarrow>
            \<not> (required (opt ?P ! j)
               \<and> arg_vals \<lparr>args = [], parsed_pos = True, arg_dest = [''n'', ''count'', ''name''],
                    arg_vals = [PNone, PInt 3, PStr ''alice''], unknown = [],
                    store = empty_store\<rparr> ! j = PNone))"
    using r j by (simp add: o)
  from C8_missing_required[OF l, of 0]
  have "parse_args_core ?P ?T False empty_store
      = Inl (Raised (MissingRequired [dest (opt ?P ! 0)]),
             store \<lparr>args = [], parsed_pos = True, arg_dest = [''n'', ''count'', ''name''],
                    arg_vals = [PNone, PInt 3, PStr ''alice''], unknown = [],
                    store = empty_store\<rparr>)"
    using h by blast
  then have c: "parse_args_core ?P ?T False empty_store
      = Inl (Raised (MissingRequired [''n'']), empty_store)"
    using r by (simp add: o)
  from l r c show ?thesis by (simp add: o)
qed

text \<open>
  A required spec with a default other than \<open>None\<close> and no value on the command line: the
  parse succeeds.
\<close>

theorem C8_required_with_default_counterexample:
  "required required_default_spec
   \<and> parse_args \<lparr>opt = [required_default_spec], pos = []\<rparr> (Some 0) [] empty_store
       = Inr (Values [(''n'', PInt 0)], empty_store)"
proof -
  let ?P = "\<lparr>opt = [required_default_spec], pos = []\<rparr>"
  have r: "required required_default_spec" "default required_default_spec = PInt 0"
      "dest required_default_spec = ''n''"
    by (simp_all add: required_default_spec_def mk_arg_def no_kwargs_def kw_get_def)
  have "main_loop ?P False (init_locals ?P [] empty_store)
      = Inr ((init_locals ?P [] empty_store)\<lparr>parsed_pos := True\<rparr>)"
    by (simp add: main_loop_no_tokens_no_positionals)
  then have "parse_args_core ?P [] False empty_store = Inr (Values [(''n'', PInt 0)], empty_store)"
    using r by (simp add: parse_args_core_def required_but_not_used_def init_locals_def)
  then show ?thesis
    using r by (simp add: parse_args_def parse_args_impl_def empty_store_def)
qed

section \<open>Variable arity: the stop rule and the separator\<close>

lemma budget_Cons: "n \<noteq> 0 \<Longrightarrow> budget n (t # ts) = Suc (budget (n - 1) ts)"
  by (auto simp: budget_def min_def)

lemma budget_zero: "budget 0 ts = 0"
  by (simp add: budget_def)

lemma convert_all_append:
  "convert_all self (xs @ ys) =
     (case convert_all self xs of
        Inl e \<Rightarrow> Inl e
      | Inr vs \<Rightarrow> (case convert_all self ys of Inl e \<Rightarrow> Inl e | Inr ws \<Rightarrow> Inr (vs @ ws)))"
  by (induction xs) (auto split: sum.splits)

lemma collect_Cons_no_stop:
  "n \<noteq> 0 \<Longrightarrow> \<not> (stop \<and> startswith t ''-'' \<and> t \<noteq> ''-'') \<Longrightarrow>
     collect self (t # ts) n stop ret =
       (case checked self t of
          Inl e \<Rightarrow> Inl e
        | Inr v \<Rightarrow> collect self ts (n - 1) stop (ret @ [v]))"
  by auto

lemma collect_no_stop:
  assumes "stop \<longrightarrow> (\<forall>t\<in>set pre. \<not> (startswith t ''-'' \<and> t \<noteq> ''-''))"
  shows "collect self (pre @ rest) n stop ret =
     (case convert_all self (take (budget n pre) pre) of
        Inl e \<Rightarrow> Inl e
      | Inr vs \<Rightarrow>
          if budget n pre < length pre then Inr (ret @ vs, drop (budget n pre) pre @ rest, 0)
          else collect self rest (n - int (length pre)) stop (ret @ vs))"
  using assms
proof (induction pre arbitrary: n ret)
  case Nil
  show ?case by (simp add: budget_def)
next
  case (Cons t pre)
  show ?case
  proof (cases "n = 0")
    case True
    then show ?thesis by (simp add: budget_zero)
  next
    case False
    from Cons.prems have nostop: "\<not> (stop \<and> startswith t ''-'' \<and> t \<noteq> ''-'')" by auto
    from Cons.prems have rest: "stop \<longrightarrow> (\<forall>t\<in>set pre. \<not> (startswith t ''-'' \<and> t \<noteq> ''-''))"
      by auto
    show ?thesis
    proof (cases "checked self t")
      case (Inl e)
      with False collect_Cons_no_stop[OF False nostop, of self "pre @ rest" ret]
      show ?thesis by (simp add: budget_Cons)
    next
      case (Inr v)
      have step: "collect self ((t # pre) @ rest) n stop ret
          = collect self (pre @ rest) (n - 1) stop (ret @ [v])"
        using collect_Cons_no_stop[OF False nostop, of self "pre @ rest" ret] Inr by simp
      have ih: "collect self (pre @ rest) (n - 1) stop (ret @ [v]) =
         (case convert_all self (take (budget (n - 1) pre) pre) of
            Inl e \<Rightarrow> Inl e
          | Inr vs \<Rightarrow>
              if budget (n - 1) pre < length pre
              then Inr ((ret @ [v]) @ vs, drop (budget (n - 1) pre) pre @ rest, 0)
              else collect self rest (n - 1 - int (length pre)) stop ((ret @ [v]) @ vs))"
        by (rule Cons.IH[OF rest])
      show ?thesis
        unfolding step ih using False Inr
        by (simp add: budget_Cons diff_diff_eq split: sum.splits)
    qed
  qed
qed

lemma collect_after_separator:
  "collect self ts n False ret =
     (case convert_all self (take (budget n ts) ts) of
        Inl e \<Rightarrow> Inl e
      | Inr vs \<Rightarrow> Inr (ret @ vs, drop (budget n ts) ts, n - int (budget n ts)))"
proof -
  have "collect self (ts @ []) n False ret =
     (case convert_all self (take (budget n ts) ts) of
        Inl e \<Rightarrow> Inl e
      | Inr vs \<Rightarrow>
          if budget n ts < length ts then Inr (ret @ vs, drop (budget n ts) ts @ [], 0)
          else collect self [] (n - int (length ts)) False (ret @ vs))"
    by (rule collect_no_stop) simp
  moreover have "budget n ts < length ts \<Longrightarrow> n - int (budget n ts) = 0"
    by (auto simp: budget_def min_def split: if_splits)
  moreover have "\<not> budget n ts < length ts \<Longrightarrow> budget n ts = length ts"
    by (auto simp: budget_def min_def split: if_splits)
  ultimately show ?thesis
    by (auto split: sum.splits)
qed

lemma parse_variable_arity:
  "variable_arity self n \<Longrightarrow> ts \<noteq> [] \<Longrightarrow> parse self optname ts = collect_n self optname ts n"
  by (auto simp: variable_arity_def parse_def split: if_splits)

lemma budget_room: "n < 0 \<or> int (length pre) < n \<Longrightarrow> budget n pre = length pre"
  by (auto simp: budget_def)

lemma budget_append:
  "n < 0 \<or> int (length pre) < n \<Longrightarrow>
     budget n (pre @ post) = length pre + budget (n - int (length pre)) post"
  by (auto simp: budget_def min_def)

lemma collect_stop_free_prefix:
  assumes "\<forall>t\<in>set pre. \<not> (startswith t ''-'' \<and> t \<noteq> ''-'')" and "n < 0 \<or> int (length pre) < n"
  shows "collect self (pre @ rest) n True ret =
     (case convert_all self pre of
        Inl e \<Rightarrow> Inl e
      | Inr vs \<Rightarrow> collect self rest (n - int (length pre)) True (ret @ vs))"
  using collect_no_stop[of True pre self rest n ret] assms
  by (simp add: budget_room split: sum.splits)

text \<open>
  C6.  In a variable-arity extraction, let \<open>pre\<close> be tokens the stop rule lets pass (none
  starts with \<open>-\<close>, but for \<open>-\<close> itself), fewer than a fixed count asks for.  If the next
  token starts with \<open>-\<close> and is neither \<open>-\<close> nor \<open>--\<close>, the extraction stops there: it has
  collected \<open>pre\<close> and the token stays first in \<open>args\<close> (a fixed count is then short, which
  is \<open>MissingValue\<close>).  If the next token is \<open>--\<close>, it is dropped without being collected
  and every token after it, whatever it looks like, is collected as a value as far as
  the count allows.
\<close>

theorem C6_stop_rule_and_separator:
  assumes var: "variable_arity self n"
    and pre: "\<forall>t\<in>set pre. \<not> (startswith t ''-'' \<and> t \<noteq> ''-'')"
    and room: "n < 0 \<or> int (length pre) < n"
  shows "(startswith t ''-'' \<and> t \<noteq> ''-'' \<and> t \<noteq> ''--'' \<longrightarrow>
            parse self optname (pre @ t # rest) =
              (case convert_all self pre of
                 Inl e \<Rightarrow> Inl e
               | Inr vs \<Rightarrow>
                   if 0 < n then Inl (Raised (MissingValue optname))
                   else Inr (PList vs, t # rest)))
       \<and> parse self optname (pre @ ''--'' # post) =
           (case convert_all self (take (budget n (pre @ post)) (pre @ post)) of
              Inl e \<Rightarrow> Inl e
            | Inr vs \<Rightarrow>
                if int (length (pre @ post)) < n then Inl (Raised (MissingValue optname))
                else Inr (PList vs, drop (budget n (pre @ post)) (pre @ post)))"
proof (intro conjI impI)
  let ?n' = "n - int (length pre)"
  from room have n': "?n' \<noteq> 0" by auto
  {
    assume t: "startswith t ''-'' \<and> t \<noteq> ''-'' \<and> t \<noteq> ''--''"
    have "collect self (pre @ t # rest) n True [] =
       (case convert_all self pre of
          Inl e \<Rightarrow> Inl e
        | Inr vs \<Rightarrow> Inr (vs, t # rest, ?n'))"
      unfolding collect_stop_free_prefix[OF pre room, of self "t # rest" "[]"] using t n'
      by (simp split: sum.splits)
    moreover have "0 < ?n' \<longleftrightarrow> 0 < n" using room by auto
    ultimately have "collect_n self optname (pre @ t # rest) n =
       (case convert_all self pre of
          Inl e \<Rightarrow> Inl e
        | Inr vs \<Rightarrow>
            if 0 < n then Inl (Raised (MissingValue optname)) else Inr (PList vs, t # rest))"
      by (simp add: collect_n_def split: sum.splits)
    then show "parse self optname (pre @ t # rest) =
       (case convert_all self pre of
          Inl e \<Rightarrow> Inl e
        | Inr vs \<Rightarrow>
            if 0 < n then Inl (Raised (MissingValue optname)) else Inr (PList vs, t # rest))"
      using parse_variable_arity[OF var, of "pre @ t # rest" optname] by simp
  }
  let ?b = "budget ?n' post"
  have sep: "collect self (''--'' # post) ?n' True ret = collect self post ?n' False ret" for ret
    using n' by (simp add: startswith_def)
  have c: "collect self (pre @ ''--'' # post) n True [] =
     (case convert_all self pre of
        Inl e \<Rightarrow> Inl e
      | Inr vs \<Rightarrow>
          (case convert_all self (take ?b post) of
             Inl e \<Rightarrow> Inl e
           | Inr ws \<Rightarrow> Inr (vs @ ws, drop ?b post, ?n' - int ?b)))"
    unfolding collect_stop_free_prefix[OF pre room, of self "''--'' # post" "[]"] sep
      collect_after_separator
    by (simp split: sum.splits)
  have b: "budget n (pre @ post) = length pre + ?b"
    using room by (rule budget_append)
  have conv: "convert_all self (take (budget n (pre @ post)) (pre @ post)) =
     (case convert_all self pre of
        Inl e \<Rightarrow> Inl e
      | Inr vs \<Rightarrow>
          (case convert_all self (take ?b post) of Inl e \<Rightarrow> Inl e | Inr ws \<Rightarrow> Inr (vs @ ws)))"
    by (simp add: b convert_all_append)
  have dr: "drop (budget n (pre @ post)) (pre @ post) = drop ?b post"
    by (simp add: b)
  have missing: "0 < ?n' - int ?b \<longleftrightarrow> int (length (pre @ post)) < n"
    using room by (auto simp: budget_def min_def)
  have "collect_n self optname (pre @ ''--'' # post) n =
     (case convert_all self (take (budget n (pre @ post)) (pre @ post)) of
        Inl e \<Rightarrow> Inl e
      | Inr vs \<Rightarrow>
          if int (length (pre @ post)) < n then Inl (Raised (MissingValue optname))
          else Inr (PList vs, drop (budget n (pre @ post)) (pre @ post)))"
    unfolding conv dr collect_n_def c using missing
    by (auto split: sum.splits)
  then show "parse self optname (pre @ ''--'' # post) =
     (case convert_all self (take (budget n (pre @ post)) (pre @ post)) of
        Inl e \<Rightarrow> Inl e
      | Inr vs \<Rightarrow>
          if int (length (pre @ post)) < n then Inl (Raised (MissingValue optname))
          else Inr (PList vs, drop (budget n (pre @ post)) (pre @ post)))"
    using parse_variable_arity[OF var, of "pre @ ''--'' # post" optname] by simp
qed

lemma convert_all_py_str:
  "choices self = None \<Longrightarrow> arg_type self = py_str \<Longrightarrow> convert_all self ts = Inr (map PStr ts)"
  by (induction ts) (simp_all add: checked_def py_str_def)

theorem C6_stop_rule_and_separator_witness:
  "variable_arity star_spec (- 1) \<and> variable_arity two_spec 2
   \<and> parse star_spec ''--xs'' [''a'', ''-'', ''--opt'', ''z'']
       = Inr (PList [PStr ''a'', PStr ''-''], [''--opt'', ''z''])
   \<and> parse star_spec ''--xs'' [''a'', ''-'', ''--'', ''--opt'', ''--'', ''b'']
       = Inr (PList [PStr ''a'', PStr ''-'', PStr ''--opt'', PStr ''--'', PStr ''b''], [])
   \<and> parse two_spec ''--xs'' [''a'', ''--opt'', ''z''] = Inl (Raised (MissingValue ''--xs''))
   \<and> parse two_spec ''--xs'' [''a'', ''--'', ''--opt'', ''z'']
       = Inr (PList [PStr ''a'', PStr ''--opt''], [''z''])"
proof -
  have v1: "variable_arity star_spec (- 1)"
    by (simp add: variable_arity_def star_spec_def mk_arg_def no_kwargs_def kw_get_def)
  have v2: "variable_arity two_spec 2"
    by (simp add: variable_arity_def two_spec_def mk_arg_def no_kwargs_def kw_get_def
        nargs_count_def)
  have c1: "convert_all star_spec ts = Inr (map PStr ts)" for ts
    by (rule convert_all_py_str)
       (simp_all add: star_spec_def mk_arg_def no_kwargs_def kw_get_def)
  have c2: "convert_all two_spec ts = Inr (map PStr ts)" for ts
    by (rule convert_all_py_str)
       (simp_all add: two_spec_def mk_arg_def no_kwargs_def kw_get_def)
  have p1: "\<forall>t\<in>set [''a'', ''-'']. \<not> (startswith t ''-'' \<and> t \<noteq> ''-'')"
    by (simp add: startswith_def)
  have p2: "\<forall>t\<in>set [''a'']. \<not> (startswith t ''-'' \<and> t \<noteq> ''-'')"
    by (simp add: startswith_def)
  have r1: "(- 1 :: int) < 0 \<or> int (length [''a'', ''-'']) < - 1" by simp
  have r2: "(2 :: int) < 0 \<or> int (length [''a'']) < 2" by simp
  have t: "startswith ''--opt'' ''-'' \<and> ''--opt'' \<noteq> ''-'' \<and> ''--opt'' \<noteq> ''--''"
    by (simp add: startswith_def)
  from C6_stop_rule_and_separator[OF v1 p1 r1, of "''--opt''" "''--xs''" "[''z'']"
      "[''--opt'', ''--'', ''b'']"] t
  have s: "parse star_spec ''--xs'' [''a'', ''-'', ''--opt'', ''z'']
       = Inr (PList [PStr ''a'', PStr ''-''], [''--opt'', ''z''])"
    "parse star_spec ''--xs'' [''a'', ''-'', ''--'', ''--opt'', ''--'', ''b'']
       = Inr (PList [PStr ''a'', PStr ''-'', PStr ''--opt'', PStr ''--'', PStr ''b''], [])"
    by (simp_all add: c1 budget_def del: convert_all.simps)
  from C6_stop_rule_and_separator[OF v2 p2 r2, of "''--opt''" "''--xs''" "[''z'']"
      "[''--opt'', ''z'']"] t
  have f: "parse two_spec ''--xs'' [''a'', ''--opt'', ''z''] = Inl (Raised (MissingValue ''--xs''))"
    "parse two_spec ''--xs'' [''a'', ''--'', ''--opt'', ''z'']
       = Inr (PList [PStr ''a'', PStr ''--opt''], [''z''])"
    by (simp_all add: c2 budget_def del: convert_all.simps)
  from v1 v2 s f show ?thesis by simp
qed

section \<open>The store: what a parse call changes\<close>

text \<open>
  The only write to the store is the \<open>append\<close> of the option loop, on the object that
  \<open>arg_vals[i]\<close> refers to.  As long as no \<open>append\<close> slot of \<open>arg_vals\<close> refers to the object
  at \<open>r\<close>, that object stays as it is.
\<close>

lemma scan_opts_store:
  assumes "\<forall>j<length opts. action (opts ! j) = ''append'' \<longrightarrow> vals ! (i + j) \<noteq> PRef r"
  shows "(\<forall>e st'. scan_opts opts i a ts vals st found = Inl (e, st') \<longrightarrow> st' r = st r)
       \<and> (\<forall>f ts' vals' st'. scan_opts opts i a ts vals st found = Inr (f, ts', vals', st')
             \<longrightarrow> st' r = st r)"
  using assms
proof (induction opts arbitrary: i ts vals st found)
  case Nil
  show ?case by simp
next
  case (Cons spec opts)
  from Cons.prems have here: "action spec = ''append'' \<Longrightarrow> vals ! i \<noteq> PRef r"
    by (metis add.right_neutral length_Cons nth_Cons_0 zero_less_Suc)
  have later: "\<forall>j<length opts. action (opts ! j) = ''append'' \<longrightarrow> vals ! (Suc i + j) \<noteq> PRef r"
    using Cons.prems by (metis Suc_less_eq add_Suc add_Suc_right length_Cons nth_Cons_Suc)
  have later_upd: "\<forall>j<length opts. action (opts ! j) = ''append'' \<longrightarrow> (vals[i := x]) ! (Suc i + j) \<noteq> PRef r"
    for x
    using later by simp
  note ih1 = Cons.IH[OF later]
  show ?case
  proof (cases "a \<in> set (names spec)")
    case False
    then show ?thesis using ih1[where ts = ts and st = st and found = found] by simp
  next
    case True
    show ?thesis
    proof (cases "action spec = ''append''")
      case False
      with True show ?thesis by (auto split: sum.splits prod.splits if_splits)
    next
      case app: True
      show ?thesis
      proof (cases "i < length vals")
        case False
        with True app show ?thesis by simp
      next
        case len: True
        show ?thesis
        proof (cases "parse spec a ts")
          case (Inl e)
          with True app len show ?thesis by (simp split: pyval.splits)
        next
          case (Inr vt)
          obtain v ts' where vt: "vt = (v, ts')" by (cases vt)
          show ?thesis
          proof (cases "if vals ! i = PNone then PList [] else vals ! i")
            case (PList xs)
            then have "scan_opts (spec # opts) i a ts vals st found
                = scan_opts opts (Suc i) a ts' (vals[i := PList (xs @ [v])]) st True"
              using True app len Inr vt by simp
            with Cons.IH[OF later_upd[of "PList (xs @ [v])"], where ts = ts' and st = st and found = True]
            show ?thesis by simp
          next
            case (PRef q)
            with here[OF app] have q: "q \<noteq> r" by (auto split: if_splits)
            from PRef have "scan_opts (spec # opts) i a ts vals st found
                = scan_opts opts (Suc i) a ts' vals (st(q := st q @ [v])) True"
              using True app len Inr vt by simp
            moreover have "(st(q := st q @ [v])) r = st r" using q by simp
            ultimately show ?thesis
              using ih1[where ts = ts' and st = "st(q := st q @ [v])" and found = True]
              by metis
          qed (use True app len Inr in simp_all)
        qed
      qed
    qed
  qed
qed

lemma scan_opts_inv:
  assumes "scan_opts opts i a ts vals st found = Inr (f, ts', vals', st')"
    and "\<forall>j<length opts. action (opts ! j) = ''append'' \<longrightarrow> vals ! (i + j) \<noteq> PRef r"
  shows "length vals' = length vals
       \<and> (\<forall>j<length opts. action (opts ! j) = ''append'' \<longrightarrow> vals' ! (i + j) \<noteq> PRef r)
       \<and> (\<forall>k<i. vals' ! k = vals ! k)"
  using assms
proof (induction opts arbitrary: i ts vals st found)
  case Nil
  then show ?case by simp
next
  case (Cons spec opts)
  let ?concl = "length vals' = length vals
       \<and> (\<forall>j<length (spec # opts). action ((spec # opts) ! j) = ''append''
             \<longrightarrow> vals' ! (i + j) \<noteq> PRef r)
       \<and> (\<forall>k<i. vals' ! k = vals ! k)"
  from Cons.prems(2) have here: "action spec = ''append'' \<Longrightarrow> vals ! i \<noteq> PRef r"
    by (metis add.right_neutral length_Cons nth_Cons_0 zero_less_Suc)
  have later: "\<forall>j<length opts. action (opts ! j) = ''append'' \<longrightarrow> vals ! (Suc i + j) \<noteq> PRef r"
    using Cons.prems(2) by (metis Suc_less_eq add_Suc add_Suc_right length_Cons nth_Cons_Suc)
  have step: ?concl
    if run: "scan_opts opts (Suc i) a ts1 vals1 st1 f1 = Inr (f, ts', vals', st')"
      and len: "length vals1 = length vals"
      and same: "\<forall>k. k \<noteq> i \<longrightarrow> vals1 ! k = vals ! k"
      and slot: "action spec = ''append'' \<longrightarrow> vals1 ! i \<noteq> PRef r"
    for ts1 vals1 st1 f1
  proof -
    have "\<forall>j<length opts. action (opts ! j) = ''append'' \<longrightarrow> vals1 ! (Suc i + j) \<noteq> PRef r"
      using later same by simp
    from Cons.IH[OF run this]
    have l: "length vals' = length vals1"
      and a: "\<forall>j<length opts. action (opts ! j) = ''append'' \<longrightarrow> vals' ! (Suc i + j) \<noteq> PRef r"
      and b: "\<forall>k<Suc i. vals' ! k = vals1 ! k"
      by auto
    have "action ((spec # opts) ! j) = ''append'' \<longrightarrow> vals' ! (i + j) \<noteq> PRef r"
      if "j < length (spec # opts)" for j
    proof (cases j)
      case 0
      with b slot show ?thesis by simp
    next
      case (Suc j')
      with that a show ?thesis by simp
    qed
    moreover have "\<forall>k<i. vals' ! k = vals ! k"
      using b same by simp
    ultimately show ?thesis using l len by simp
  qed
  show ?case
  proof (cases "a \<in> set (names spec)")
    case False
    with Cons.prems(1) have "scan_opts opts (Suc i) a ts vals st found = Inr (f, ts', vals', st')"
      by simp
    from step[OF this] here show ?thesis by simp
  next
    case True
    show ?thesis
    proof (cases "action spec = ''append''")
      case False
      with True Cons.prems(1) obtain v where v: "vals' = vals[i := v]" "i < length vals"
        by (auto split: sum.splits prod.splits if_splits)
      have "action ((spec # opts) ! j) = ''append'' \<longrightarrow> vals' ! (i + j) \<noteq> PRef r"
        if "j < length (spec # opts)" for j
      proof (cases j)
        case 0
        with False show ?thesis by simp
      next
        case (Suc j')
        with that later v show ?thesis by simp
      qed
      with v show ?thesis by simp
    next
      case app: True
      from True app Cons.prems(1) have len: "i < length vals"
        by (auto split: if_splits)
      from True app len Cons.prems(1) obtain v ts1 where p: "parse spec a ts = Inr (v, ts1)"
        by (cases "parse spec a ts") (auto split: pyval.splits)
      show ?thesis
      proof (cases "if vals ! i = PNone then PList [] else vals ! i")
        case (PList xs)
        with True app len p Cons.prems(1)
        have "scan_opts opts (Suc i) a ts1 (vals[i := PList (xs @ [v])]) st True
            = Inr (f, ts', vals', st')"
          by simp
        from step[OF this] len show ?thesis by simp
      next
        case (PRef q)
        with True app len p Cons.prems(1)
        have "scan_opts opts (Suc i) a ts1 vals (st(q := st q @ [v])) True
            = Inr (f, ts', vals', st')"
          by simp
        from step[OF this] here show ?thesis by simp
      qed (use True app len p Cons.prems(1) in simp_all)
    qed
  qed
qed

lemma named_branch_frame:
  assumes "no_append_ref P r (arg_vals s)"
  shows "(\<forall>e st'. named_branch P ru a s = Inl (e, st') \<longrightarrow> st' r = store s r)
       \<and> (\<forall>b s'. named_branch P ru a s = Inr (b, s')
             \<longrightarrow> store s' r = store s r \<and> no_append_ref P r (arg_vals s'))"
proof -
  let ?scan = "scan_opts (opt P) 0 a (args s) (arg_vals s) (store s) False"
  have pre: "\<forall>j<length (opt P). action (opt P ! j) = ''append'' \<longrightarrow> arg_vals s ! (0 + j) \<noteq> PRef r"
    using assms by (simp add: no_append_ref_def)
  note st = scan_opts_store[OF pre, of a "args s" "store s" False]
  show ?thesis
  proof (cases ?scan)
    case (Inl x)
    obtain e st' where "x = (e, st')" by (cases x)
    with Inl st show ?thesis by (simp add: named_branch_def)
  next
    case (Inr y)
    obtain f ts' vals' st' where y: "y = (f, ts', vals', st')" by (cases y)
    from scan_opts_inv[OF Inr[unfolded y] pre] assms
    have "no_append_ref P r vals'" by (simp add: no_append_ref_def)
    moreover from st Inr y have "st' r = store s r" by simp
    ultimately show ?thesis
      using Inr y by (auto simp: named_branch_def Let_def split: prod.splits)
  qed
qed

lemma positional_branch_frame:
  assumes "no_append_ref P r (arg_vals s)"
  shows "(\<forall>e st'. positional_branch P ru s = Inl (e, st') \<longrightarrow> st' r = store s r)
       \<and> (\<forall>b s'. positional_branch P ru s = Inr (b, s')
             \<longrightarrow> store s' r = store s r \<and> no_append_ref P r (arg_vals s'))"
proof -
  have "no_append_ref P r vals'" if "prefix (arg_vals s) vals'" for vals'
  proof -
    from that obtain ws where "vals' = arg_vals s @ ws" by (auto simp: prefix_def)
    with assms show ?thesis by (auto simp: no_append_ref_def nth_append)
  qed
  with assms show ?thesis
    by (auto simp: positional_branch_def Let_def split: sum.splits prod.splits
        dest!: parse_positionals_vals)
qed

lemma loop_body_frame:
  assumes "no_append_ref P r (arg_vals s)"
  shows "(\<forall>e st'. loop_body P ru s = Inl (e, st') \<longrightarrow> st' r = store s r)
       \<and> (\<forall>b s'. loop_body P ru s = Inr (b, s')
             \<longrightarrow> store s' r = store s r \<and> no_append_ref P r (arg_vals s'))"
proof (cases "args s")
  case Nil
  with positional_branch_frame[OF assms, of ru] show ?thesis by (simp add: loop_body_def)
next
  case (Cons a rest)
  have "no_append_ref P r (arg_vals (s\<lparr>args := rest\<rparr>))" using assms by simp
  from named_branch_frame[OF this, of ru a] positional_branch_frame[OF assms, of ru] Cons
  show ?thesis by (simp add: loop_body_def)
qed

lemma main_loop_frame:
  assumes "no_append_ref P r (arg_vals s)"
  shows "(\<forall>e st'. main_loop P ru s = Inl (e, st') \<longrightarrow> st' r = store s r)
       \<and> (\<forall>s'. main_loop P ru s = Inr s' \<longrightarrow> store s' r = store s r)"
  using assms
proof (induction P ru s rule: main_loop.induct)
  case (1 self return_unknown s)
  note frame = loop_body_frame[OF "1.prems", of return_unknown]
  show ?case
  proof (cases "args s \<noteq> [] \<or> \<not> parsed_pos s")
    case False
    then have "main_loop self return_unknown s = Inr s" by (simp add: main_loop_done)
    then show ?thesis by simp
  next
    case True
    show ?thesis
    proof (cases "loop_body self return_unknown s")
      case (Inl x)
      obtain e st' where x: "x = (e, st')" by (cases x)
      from main_loop_fail[OF True Inl] have "main_loop self return_unknown s = Inl (e, st')"
        by (simp add: x)
      with Inl x frame show ?thesis by simp
    next
      case (Inr y)
      obtain brk s1 where y: "y = (brk, s1)" by (cases y)
      from frame Inr y have s1: "store s1 r = store s r" "no_append_ref self r (arg_vals s1)"
        by auto
      show ?thesis
      proof (cases brk)
        case brk: True
        from Inr y brk have "loop_body self return_unknown s = Inr (True, s1)" by simp
        from main_loop_break[OF True this] s1(1) show ?thesis by simp
      next
        case False
        from "1.IH"[OF True Inr y[symmetric] False s1(2)]
        have "(\<forall>e st'. main_loop self return_unknown s1 = Inl (e, st') \<longrightarrow> st' r = store s1 r)
            \<and> (\<forall>s'. main_loop self return_unknown s1 = Inr s' \<longrightarrow> store s' r = store s1 r)" .
        moreover have "main_loop self return_unknown s = main_loop self return_unknown s1"
          using main_loop_continue[OF True] Inr y False by simp
        ultimately show ?thesis using s1(1) by simp
      qed
    qed
  qed
qed

lemma init_no_append_ref:
  assumes "\<forall>spec \<in> set (opt P). action spec = ''append'' \<longrightarrow> default spec \<noteq> PRef r"
  shows "no_append_ref P r (arg_vals (init_locals P ts st))"
  using assms by (simp add: no_append_ref_def init_locals_def)

lemma parse_args_core_frame:
  assumes "\<forall>spec \<in> set (opt P). action spec = ''append'' \<longrightarrow> default spec \<noteq> PRef r"
  shows "store_after (parse_args_core P ts ru st) r = st r"
proof -
  let ?s0 = "init_locals P ts st"
  note frame = main_loop_frame[OF init_no_append_ref[OF assms], of ru ts st]
  have s0: "store ?s0 = st" by (simp add: init_locals_def)
  show ?thesis
  proof (cases "main_loop P ru ?s0")
    case (Inl x)
    obtain e st' where "x = (e, st')" by (cases x)
    with Inl frame s0 show ?thesis by (simp add: parse_args_core_def store_after_def)
  next
    case (Inr s')
    with frame s0 show ?thesis by (simp add: parse_args_core_def store_after_def Let_def)
  qed
qed

lemma parse_args_impl_frame:
  assumes "\<forall>spec \<in> set (opt P). action spec = ''append'' \<longrightarrow> default spec \<noteq> PRef r"
  shows "store_after (parse_args_impl P args_ref ru argv st) r = st r"
proof (cases "case args_ref of None \<Rightarrow> Some argv | Some q \<Rightarrow> token_strings (st q)")
  case None
  then show ?thesis by (simp add: parse_args_impl_def store_after_def)
next
  case (Some ts)
  from parse_args_core_frame[OF assms, of ts ru st] Some show ?thesis
    by (auto simp: parse_args_impl_def store_after_def split: sum.splits prod.splits failure.splits)
qed

text \<open>
  The copy made on entry protects the caller's list from the pops: a list that is not
  also the \<open>default\<close> of an \<open>append\<close> spec is the same after \<open>parse_args\<close> and
  \<open>parse_known_args\<close>, on success and on failure.
\<close>

lemma caller_list_unchanged_unless_aliased:
  assumes "\<forall>spec \<in> set (opt P). action spec = ''append'' \<longrightarrow> default spec \<noteq> PRef r"
  shows "store_after (parse_args P (Some r) argv st) r = st r
       \<and> store_after (parse_known_args P (Some r) argv st) r = st r"
  using parse_args_impl_frame[OF assms]
  by (simp add: parse_args_def parse_known_args_def)

lemma append_spec_shared_list:
  "parse_args \<lparr>opt = [append_spec 1], pos = []\<rparr> (Some 0) [] ((tokens [''--x'', ''1''])(1 := xs))
     = Inr (Values [(''x'', PRef 1)], (tokens [''--x'', ''1''])(1 := xs @ [PStr ''1'']))"
  by (simp add: parse_args_def parse_args_impl_def parse_args_core_def
      init_locals_def main_loop.simps loop_body_def named_branch_def positional_branch_def
      looks_like_option_def startswith_def parse_def checked_def required_but_not_used_def
      enumerate_eq_zip mk_arg_def no_kwargs_def kw_get_def py_str_def append_spec_def tokens_def)

text \<open>
  C2 (the code departs from the claim).  With a list as the \<open>default\<close> of an \<open>append\<close> spec,
  a parse appends to that very list: the object behind \<open>default\<close> is \<open>[]\<close> before the first
  call, \<open>["1"]\<close> after it, and \<open>["1", "1"]\<close> after the same call made again.
\<close>

theorem C2_default_list_mutated:
  "default (append_spec 1) = PRef 1
   \<and> parse_args \<lparr>opt = [append_spec 1], pos = []\<rparr> (Some 0) [] ((tokens [''--x'', ''1''])(1 := []))
       = Inr (Values [(''x'', PRef 1)], (tokens [''--x'', ''1''])(1 := [PStr ''1'']))
   \<and> parse_args \<lparr>opt = [append_spec 1], pos = []\<rparr> (Some 0) []
         ((tokens [''--x'', ''1''])(1 := [PStr ''1'']))
       = Inr (Values [(''x'', PRef 1)], (tokens [''--x'', ''1''])(1 := [PStr ''1'', PStr ''1'']))"
  using append_spec_shared_list[of "[]"] append_spec_shared_list[of "[PStr ''1'']"]
  by (simp add: append_spec_def mk_arg_def no_kwargs_def kw_get_def)

text \<open>
  C10 (the code departs from the claim).  When the caller's token list is also the list
  registered as the \<open>default\<close> of an \<open>append\<close> spec, the parse appends to it: the caller's
  \<open>["--x", "1"]\<close> is \<open>["--x", "1", "1"]\<close> after \<open>parse_args\<close>.
\<close>

theorem C10_aliased_list_mutated:
  "default (append_spec 0) = PRef 0
   \<and> tokens [''--x'', ''1''] 0 = [PStr ''--x'', PStr ''1'']
   \<and> store_after (parse_args \<lparr>opt = [append_spec 0], pos = []\<rparr> (Some 0) []
        (tokens [''--x'', ''1''])) 0 = [PStr ''--x'', PStr ''1'', PStr ''1'']"
  by (simp add: parse_args_def parse_args_impl_def parse_args_core_def
      init_locals_def main_loop.simps loop_body_def named_branch_def positional_branch_def
      looks_like_option_def startswith_def parse_def checked_def required_but_not_used_def
      enumerate_eq_zip mk_arg_def no_kwargs_def kw_get_def py_str_def append_spec_def tokens_def
      store_after_def)

section \<open>The tolerant mode after a strict success\<close>

text \<open>
  A value extraction that stops before the end of its tokens does the same when a token is
  appended to them; one that reaches the end does so when it leaves the token alone.
\<close>

lemma collect_zero: "collect self ts 0 stop ret = Inr (ret, ts, 0)"
  by (cases ts) simp_all

lemma collect_tokens_left:
  "collect self ts n stop ret = Inr (ret', ts', n') \<Longrightarrow> ts' \<noteq> [] \<Longrightarrow>
     collect self (ts @ [U]) n stop ret = Inr (ret', ts' @ [U], n')"
proof (induction ts arbitrary: n stop ret)
  case Nil
  then show ?case by simp
next
  case (Cons t ts)
  show ?case
  proof (cases "n = 0")
    case True
    with Cons.prems(1) show ?thesis by (simp add: collect_zero del: collect.simps)
  next
    case n0: False
    show ?thesis
    proof (cases "stop \<and> startswith t ''-'' \<and> t \<noteq> ''-''")
      case True
      show ?thesis
      proof (cases "t = ''--''")
        case sep: True
        with n0 True Cons.prems(1) have "collect self ts n False ret = Inr (ret', ts', n')"
          by simp
        from Cons.IH[OF this Cons.prems(2)] n0 True sep show ?thesis by simp
      next
        case False
        with n0 True Cons.prems(1) have "ret' = ret" "ts' = t # ts" "n' = n" by auto
        with n0 True False show ?thesis by simp
      qed
    next
      case False
      with n0 Cons.prems(1) obtain v where v: "checked self t = Inr v"
          "collect self ts (n - 1) stop (ret @ [v]) = Inr (ret', ts', n')"
        by (auto split: sum.splits)
      from collect_Cons_no_stop[OF n0 False, of self "ts @ [U]" ret] v(1)
        Cons.IH[OF v(2) Cons.prems(2)]
      show ?thesis by simp
    qed
  qed
qed

lemma parse_tokens_left:
  assumes "parse self nm ts = Inr (v, ts')" and "ts' \<noteq> []"
  shows "parse self nm (ts @ [U]) = Inr (v, ts' @ [U])"
proof -
  have c: "collect_n self nm (ts @ [U]) n = Inr (v, ts' @ [U])"
    if "collect_n self nm ts n = Inr (v, ts')" for n
  proof -
    from that obtain ret n' where r: "collect self ts n True [] = Inr (ret, ts', n')"
        "\<not> n' > 0" "v = PList ret"
      by (auto simp: collect_n_def split: sum.splits prod.splits if_splits)
    from collect_tokens_left[OF r(1) assms(2)] r(2,3) show ?thesis
      by (simp add: collect_n_def)
  qed
  from assms show ?thesis
    by (auto simp: parse_def split: if_splits list.splits sum.splits option.splits intro: c)
qed

lemma leaves_extends:
  assumes "leaves U (spec, nm, ts)" and "parse spec nm ts = Inr (v, ts')"
  shows "parse spec nm (ts @ [U]) = Inr (v, ts' @ [U])"
proof (cases "ts' = []")
  case True
  with assms show ?thesis by (simp add: leaves_def)
next
  case False
  with assms(2) show ?thesis by (rule parse_tokens_left)
qed

lemma scan_opts_leaves:
  "\<forall>c\<in>set (scan_calls opts a ts). leaves U c \<Longrightarrow>
     scan_opts opts i a ts vals st found = Inr (f, ts', vals', st') \<Longrightarrow>
     scan_opts opts i a (ts @ [U]) vals st found = Inr (f, ts' @ [U], vals', st')"
proof (induction opts arbitrary: i ts vals st found)
  case Nil
  then show ?case by simp
next
  case (Cons spec opts)
  show ?case
  proof (cases "a \<in> set (names spec)")
    case False
    with Cons.prems Cons.IH[of ts "Suc i" vals st found] show ?thesis by simp
  next
    case True
    then have "(spec, a, ts) \<in> set (scan_calls (spec # opts) a ts)"
      by (cases "action spec = ''append''") simp_all
    with Cons.prems(1) have here: "leaves U (spec, a, ts)" by blast
    show ?thesis
    proof (cases "parse spec a ts")
      case (Inl e)
      with True Cons.prems(2) show ?thesis
        by (auto split: if_splits pyval.splits)
    next
      case (Inr vt)
      obtain v ts1 where vt: "vt = (v, ts1)" by (cases vt)
      from Inr vt have p: "parse spec a ts = Inr (v, ts1)" by simp
      from leaves_extends[OF here p] have p': "parse spec a (ts @ [U]) = Inr (v, ts1 @ [U])" .
      show ?thesis
      proof (cases "action spec = ''append''")
        case False
        with True p p' Cons.prems(2) show ?thesis by (auto split: if_splits)
      next
        case app: True
        with True p have "set (scan_calls opts a ts1) \<subseteq> set (scan_calls (spec # opts) a ts)"
          by auto
        with Cons.prems(1) have later: "\<forall>c\<in>set (scan_calls opts a ts1). leaves U c"
          by blast
        note ih = Cons.IH[OF later]
        show ?thesis
        proof (cases "i < length vals")
          case False
          with True app Cons.prems(2) show ?thesis by simp
        next
          case len: True
          show ?thesis
          proof (cases "if vals ! i = PNone then PList [] else vals ! i")
            case (PList xs)
            with True app len p Cons.prems(2)
            have "scan_opts opts (Suc i) a ts1 (vals[i := PList (xs @ [v])]) st True
                = Inr (f, ts', vals', st')"
              by simp
            from ih[OF this]
            have "scan_opts opts (Suc i) a (ts1 @ [U]) (vals[i := PList (xs @ [v])]) st True
                = Inr (f, ts' @ [U], vals', st')" .
            moreover have "scan_opts (spec # opts) i a (ts @ [U]) vals st found
                = scan_opts opts (Suc i) a (ts1 @ [U]) (vals[i := PList (xs @ [v])]) st True"
              using PList True app len p' by simp
            ultimately show ?thesis by (simp only:)
          next
            case (PRef q)
            with True app len p Cons.prems(2)
            have "scan_opts opts (Suc i) a ts1 vals (st(q := st q @ [v])) True
                = Inr (f, ts', vals', st')"
              by simp
            from ih[OF this]
            have "scan_opts opts (Suc i) a (ts1 @ [U]) vals (st(q := st q @ [v])) True
                = Inr (f, ts' @ [U], vals', st')" .
            moreover have "scan_opts (spec # opts) i a (ts @ [U]) vals st found
                = scan_opts opts (Suc i) a (ts1 @ [U]) vals (st(q := st q @ [v])) True"
              using PRef True app len p' by simp
            ultimately show ?thesis by (simp only:)
          qed (use True app len p Cons.prems(2) in simp_all)
        qed
      qed
    qed
  qed
qed

lemma parse_positionals_leaves:
  "\<forall>c\<in>set (pos_calls ps ts). leaves U c \<Longrightarrow>
     parse_positionals ps ts dests vals = Inr (ts', dests', vals') \<Longrightarrow>
     parse_positionals ps (ts @ [U]) dests vals = Inr (ts' @ [U], dests', vals')"
proof (induction ps arbitrary: ts dests vals)
  case Nil
  then show ?case by simp
next
  case (Cons p ps)
  from Cons.prems(2) obtain nm nms v ts1 where nm: "names p = nm # nms"
      and p: "parse p nm ts = Inr (v, ts1)"
      and rest: "parse_positionals ps ts1 (dests @ [dest p]) (vals @ [v]) = Inr (ts', dests', vals')"
    by (auto split: list.splits sum.splits prod.splits)
  from nm p have "(p, nm, ts) \<in> set (pos_calls (p # ps) ts)"
    and "set (pos_calls ps ts1) \<subseteq> set (pos_calls (p # ps) ts)"
    by auto
  with Cons.prems(1) have here: "leaves U (p, nm, ts)"
    and later: "\<forall>c\<in>set (pos_calls ps ts1). leaves U c"
    by blast+
  from leaves_extends[OF here p] have p': "parse p nm (ts @ [U]) = Inr (v, ts1 @ [U])" .
  from Cons.IH[OF later rest] nm p' show ?case by simp
qed

text \<open>The iterations of a strict parse that goes on, and the iteration that records \<open>U\<close>.\<close>

lemma strict_named_step:
  assumes "loop_body P False s = Inr (brk, s1)" and "args s = a # rest" and "looks_like_option a"
  shows "\<not> brk \<and> a \<noteq> ''-h'' \<and> a \<noteq> ''--help''
       \<and> (\<exists>ts1 v1 st1.
             scan_opts (opt P) 0 a rest (arg_vals s) (store s) False = Inr (True, ts1, v1, st1)
           \<and> s1 = s\<lparr>args := ts1, arg_vals := v1, store := st1\<rparr>)"
  using assms
  by (auto simp: loop_body_def named_branch_def Let_def split: if_splits sum.splits prod.splits)

lemma strict_positional_step:
  assumes "loop_body P False s = Inr (brk, s1)"
    and "args s = [] \<or> \<not> looks_like_option (hd (args s))"
  shows "\<not> brk \<and> \<not> parsed_pos s
       \<and> (\<exists>ts1 d1 v1.
             parse_positionals (pos P) (args s) (arg_dest s) (arg_vals s) = Inr (ts1, d1, v1)
           \<and> s1 = s\<lparr>args := ts1, arg_dest := d1, arg_vals := v1, parsed_pos := True\<rparr>)"
  using assms
  by (auto simp: loop_body_def positional_branch_def Let_def
      split: if_splits sum.splits prod.splits list.splits)

lemma tolerant_unknown_step:
  assumes "looks_like_option U" "U \<noteq> ''-h''" "U \<noteq> ''--help''"
    and "\<forall>spec\<in>set (opt P). U \<notin> set (names spec)"
    and "args s = [U]"
  shows "loop_body P True s = Inr (False, s\<lparr>args := [], unknown := unknown s @ [U]\<rparr>)"
  using assms
  by (simp add: loop_body_def named_branch_def scan_opts_no_match)

lemma consume_unknown_dash:
  "ts \<noteq> [] \<Longrightarrow> startswith (hd ts) ''-'' \<Longrightarrow> consume_unknown ts u = (ts, u)"
  by (cases ts) simp_all

lemma strict_success_front:
  assumes "main_loop P False s = Inr s'" and "parsed_pos s" and "args s = b # bs"
  shows "looks_like_option b"
proof (rule ccontr)
  assume "\<not> looks_like_option b"
  with assms(2,3) have "loop_body P False s = Inl (Raised (ExtraArguments (args s)), store s)"
    by (simp add: loop_body_def positional_branch_def)
  with assms(3) main_loop_fail[of s P False] have "main_loop P False s = Inl (Raised (ExtraArguments (args s)), store s)"
    by simp
  with assms(1) show False by simp
qed

lemma main_loop_strict_unknown:
  "\<not> ru \<Longrightarrow> main_loop P ru s = Inr s' \<Longrightarrow> unknown s' = unknown s"
proof (induction P ru s rule: main_loop.induct)
  case (1 self return_unknown s)
  from "1.prems"(1) have ru: "return_unknown = False" by simp
  note run = "1.prems"(2)[unfolded ru]
  show ?case
  proof (cases "args s \<noteq> [] \<or> \<not> parsed_pos s")
    case False
    with run show ?thesis by (simp add: main_loop_done)
  next
    case cond: True
    from run cond obtain brk s1 where body: "loop_body self False s = Inr (brk, s1)"
      by (subst (asm) main_loop.simps) (auto split: sum.splits)
    have "\<not> brk \<and> unknown s1 = unknown s"
    proof (cases "args s = [] \<or> \<not> looks_like_option (hd (args s))")
      case True
      from strict_positional_step[OF body this] show ?thesis by auto
    next
      case False
      then obtain a rest where "args s = a # rest" "looks_like_option a"
        by (cases "args s") auto
      from strict_named_step[OF body this] show ?thesis by auto
    qed
    then have nb: "\<not> brk" and u: "unknown s1 = unknown s" by auto
    from body nb have "main_loop self False s = main_loop self False s1"
      using cond by (intro main_loop_continue) simp_all
    with run have "main_loop self False s1 = Inr s'" by simp
    with "1.IH"[OF cond _ refl nb] body ru have "unknown s' = unknown s1" by simp
    with u show ?thesis by simp
  qed
qed

lemma token_strings_map: "token_strings (map PStr ts) = Some ts"
  by (induction ts) simp_all

text \<open>
  The tolerant loop on the tokens with \<open>U\<close> appended follows the strict loop on the tokens
  step by step, and ends with the same destinations, values and store, and with \<open>U\<close> in
  \<open>unknown\<close>: an option-looking \<open>U\<close> is recorded by the named branch, a bare one by the sweep
  after the positionals or by the \<open>break\<close> of the positional branch.
\<close>

lemma main_loop_append_token:
  assumes "U \<noteq> ''-h''" "U \<noteq> ''--help''"
      "\<forall>spec\<in>set (opt P). U \<notin> set (names spec)"
    and "\<not> ru" and "main_loop P ru s = Inr s'"
    and "\<forall>c\<in>set (extractions P s). leaves U c"
  shows "\<exists>s''. main_loop P True (s\<lparr>args := args s @ [U]\<rparr>) = Inr s''
           \<and> arg_dest s'' = arg_dest s' \<and> arg_vals s'' = arg_vals s'
           \<and> store s'' = store s' \<and> unknown s'' = unknown s' @ [U]"
  using assms
proof (induction P ru s rule: main_loop.induct)
  case (1 self return_unknown s)
  note U = "1.prems"(1-3)
  from "1.prems"(4) have ru: "return_unknown = False" by simp
  note run = "1.prems"(5)[unfolded ru]
  note lv = "1.prems"(6)
  have finish: "\<exists>s''. main_loop self True (t\<lparr>args := [U]\<rparr>) = Inr s''
           \<and> arg_dest s'' = arg_dest t \<and> arg_vals s'' = arg_vals t
           \<and> store s'' = store t \<and> unknown s'' = unknown t @ [U]"
    if t: "args t = []" "parsed_pos t" for t
  proof (cases "looks_like_option U")
    case True
    let ?t1 = "t\<lparr>args := [U]\<rparr>"
    have "loop_body self True ?t1 = Inr (False, ?t1\<lparr>args := [], unknown := unknown ?t1 @ [U]\<rparr>)"
      by (rule tolerant_unknown_step[OF True U]) simp
    then have "main_loop self True ?t1 = main_loop self True (?t1\<lparr>args := [], unknown := unknown ?t1 @ [U]\<rparr>)"
      by (intro main_loop_continue) simp_all
    also have "\<dots> = Inr (?t1\<lparr>args := [], unknown := unknown ?t1 @ [U]\<rparr>)"
      using t by (intro main_loop_done) simp_all
    finally show ?thesis by simp
  next
    case False
    let ?t1 = "t\<lparr>args := [U]\<rparr>"
    have "loop_body self True ?t1 = Inr (True, ?t1\<lparr>unknown := unknown ?t1 @ args ?t1\<rparr>)"
      using False t by (simp add: loop_body_def positional_branch_def)
    then have "main_loop self True ?t1 = Inr (?t1\<lparr>unknown := unknown ?t1 @ args ?t1\<rparr>)"
      by (intro main_loop_break) simp_all
    then show ?thesis by simp
  qed
  show ?case
  proof (cases "args s \<noteq> [] \<or> \<not> parsed_pos s")
    case False
    then have e: "args s = []" "parsed_pos s" by auto
    with run have "s' = s" by (simp add: main_loop_done)
    with finish[OF e] e show ?thesis by simp
  next
    case cond: True
    from run cond obtain brk s1 where body: "loop_body self False s = Inr (brk, s1)"
      by (subst (asm) main_loop.simps) (auto split: sum.splits)
    have nb: "\<not> brk"
    proof (cases "args s = [] \<or> \<not> looks_like_option (hd (args s))")
      case True
      from strict_positional_step[OF body this] show ?thesis by auto
    next
      case False
      then obtain a rest where "args s = a # rest" "looks_like_option a"
        by (cases "args s") auto
      from strict_named_step[OF body this] show ?thesis by auto
    qed
    from body nb have body': "loop_body self False s = Inr (False, s1)" by simp
    from body' have cont: "main_loop self False s = main_loop self False s1"
      using cond by (intro main_loop_continue) simp_all
    with run have run1: "main_loop self False s1 = Inr s'" by simp
    from extractions_continue[OF cond body'] lv
    have lv_here: "\<forall>c\<in>set (body_calls self s). leaves U c"
      and lv1: "\<forall>c\<in>set (extractions self s1). leaves U c"
      by simp_all
    have ih: "\<exists>s''. main_loop self True (s1\<lparr>args := args s1 @ [U]\<rparr>) = Inr s''
           \<and> arg_dest s'' = arg_dest s' \<and> arg_vals s'' = arg_vals s'
           \<and> store s'' = store s' \<and> unknown s'' = unknown s' @ [U]"
      using "1.IH"[OF cond _ refl nb U] body ru run1 lv1 by simp
    let ?t = "s\<lparr>args := args s @ [U]\<rparr>"
    show ?thesis
    proof (cases "args s \<noteq> [] \<and> looks_like_option (hd (args s))")
      case True
      then obtain a rest where Cons: "args s = a # rest" and la: "looks_like_option a"
        by (cases "args s") auto
      from strict_named_step[OF body Cons la] obtain ts1 v1 st1 where
          nohelp: "a \<noteq> ''-h''" "a \<noteq> ''--help''"
          and sc: "scan_opts (opt self) 0 a rest (arg_vals s) (store s) False = Inr (True, ts1, v1, st1)"
          and s1: "s1 = s\<lparr>args := ts1, arg_vals := v1, store := st1\<rparr>"
        by auto
      from lv_here Cons la have "\<forall>c\<in>set (scan_calls (opt self) a rest). leaves U c"
        by (simp add: body_calls_def)
      from scan_opts_leaves[OF this sc]
      have "scan_opts (opt self) 0 a (rest @ [U]) (arg_vals s) (store s) False
          = Inr (True, ts1 @ [U], v1, st1)" .
      then have "loop_body self True ?t = Inr (False, s1\<lparr>args := args s1 @ [U]\<rparr>)"
        using Cons la nohelp s1 by (simp add: loop_body_def named_branch_def)
      then have "main_loop self True ?t = main_loop self True (s1\<lparr>args := args s1 @ [U]\<rparr>)"
        using Cons by (intro main_loop_continue) simp_all
      with ih show ?thesis by simp
    next
      case False
      then have pos: "args s = [] \<or> \<not> looks_like_option (hd (args s))" by simp
      from strict_positional_step[OF body pos] obtain ts1 d1 v1 where
          npp: "\<not> parsed_pos s"
          and pp: "parse_positionals (pos self) (args s) (arg_dest s) (arg_vals s) = Inr (ts1, d1, v1)"
          and s1: "s1 = s\<lparr>args := ts1, arg_dest := d1, arg_vals := v1, parsed_pos := True\<rparr>"
        by auto
      from lv_here pos npp have lvp: "\<forall>c\<in>set (pos_calls (pos self) (args s)). leaves U c"
        by (cases "args s") (simp_all add: body_calls_def)
      from parse_positionals_leaves[OF lvp pp]
      have pp': "parse_positionals (pos self) (args s @ [U]) (arg_dest s) (arg_vals s)
          = Inr (ts1 @ [U], d1, v1)" .
      have front1: "looks_like_option (hd ts1)" if "ts1 \<noteq> []"
      proof -
        from that obtain b bs where b: "ts1 = b # bs" by (cases ts1) auto
        with s1 have "parsed_pos s1" "args s1 = b # bs" by simp_all
        from strict_success_front[OF run1 this] b show ?thesis by simp
      qed
      show ?thesis
      proof (cases "args s = [] \<and> looks_like_option U")
        case True
        then have Nil: "args s = []" and lu: "looks_like_option U" by auto
        from parse_positionals_suffix[OF pp] Nil have ts1: "ts1 = []" by simp
        have "main_loop self False s1 = Inr s1" using s1 ts1 by (intro main_loop_done) simp_all
        with run1 have s': "s' = s1" by simp
        let ?t1 = "s\<lparr>args := [U]\<rparr>"
        let ?t2 = "s\<lparr>args := [], unknown := unknown s @ [U]\<rparr>"
        let ?t3 = "s1\<lparr>unknown := unknown s1 @ [U]\<rparr>"
        have "loop_body self True ?t1 = Inr (False, ?t1\<lparr>args := [], unknown := unknown ?t1 @ [U]\<rparr>)"
          by (rule tolerant_unknown_step[OF lu U]) simp
        then have "loop_body self True ?t1 = Inr (False, ?t2)" by simp
        then have "main_loop self True ?t1 = main_loop self True ?t2"
          by (intro main_loop_continue) simp_all
        also have "loop_body self True ?t2 = Inr (False, ?t3)"
          using npp pp s1 ts1 Nil by (simp add: loop_body_def positional_branch_def)
        then have "main_loop self True ?t2 = main_loop self True ?t3"
          using npp by (intro main_loop_continue) simp_all
        also have "\<dots> = Inr ?t3" using s1 ts1 by (intro main_loop_done) simp_all
        finally show ?thesis using Nil s' by simp
      next
        case notopt: False
        have branch: "loop_body self True ?t = positional_branch self True ?t"
        proof (cases "args s")
          case Nil
          with notopt show ?thesis by (simp add: loop_body_def)
        next
          case (Cons a rest)
          with pos show ?thesis by (simp add: loop_body_def)
        qed
        show ?thesis
        proof (cases "ts1 = [] \<and> \<not> startswith U ''-''")
          case True
          then have ts1: "ts1 = []" and bare: "\<not> startswith U ''-''" by auto
          have "main_loop self False s1 = Inr s1" using s1 ts1 by (intro main_loop_done) simp_all
          with run1 have s': "s' = s1" by simp
          let ?t3 = "s1\<lparr>unknown := unknown s1 @ [U]\<rparr>"
          have "loop_body self True ?t = Inr (False, ?t3)"
            unfolding branch using npp pp' s1 ts1 bare
            by (simp add: positional_branch_def)
          then have "main_loop self True ?t = main_loop self True ?t3"
            using npp by (intro main_loop_continue) simp_all
          also have "\<dots> = Inr ?t3" using s1 ts1 by (intro main_loop_done) simp_all
          finally show ?thesis using s' by simp
        next
          case False
          have "startswith (hd (ts1 @ [U])) ''-''"
          proof (cases "ts1 = []")
            case True
            with False show ?thesis by simp
          next
            case ne: False
            from front1[OF this] ne show ?thesis by (simp add: looks_like_option_def)
          qed
          then have sweep: "consume_unknown (ts1 @ [U]) (unknown s) = (ts1 @ [U], unknown s)"
            by (intro consume_unknown_dash) simp_all
          have "loop_body self True ?t = Inr (False, s1\<lparr>args := args s1 @ [U]\<rparr>)"
            unfolding branch using npp pp' s1 sweep
            by (simp add: positional_branch_def)
          then have "main_loop self True ?t = main_loop self True (s1\<lparr>args := args s1 @ [U]\<rparr>)"
            using npp by (intro main_loop_continue) simp_all
          with ih show ?thesis by simp
        qed
      qed
    qed
  qed
qed

lemma parse_args_core_append_token:
  assumes U: "U \<noteq> ''-h''" "U \<noteq> ''--help''"
      "\<forall>spec\<in>set (opt P). U \<notin> set (names spec)"
    and lv: "\<forall>c\<in>set (extractions P (init_locals P T st)). leaves U c"
    and strict: "parse_args_core P T False st = Inr (Values R, st')"
  shows "parse_args_core P (T @ [U]) True st = Inr (ValuesUnknown R [U], st')"
proof -
  let ?s0 = "init_locals P T st"
  from strict obtain s' where loop: "main_loop P False ?s0 = Inr s'"
    by (auto simp: parse_args_core_def split: sum.splits)
  from strict loop have req: "required_but_not_used (opt P) (arg_vals s') = []"
    and R: "R = zip (arg_dest s') (arg_vals s')" and st': "st' = store s'"
    by (auto simp: parse_args_core_def Let_def split: if_splits)
  from main_loop_strict_unknown[OF _ loop] have u: "unknown s' = []"
    by (simp add: init_locals_def)
  from main_loop_append_token[OF U _ loop lv] obtain s'' where
      run: "main_loop P True (?s0\<lparr>args := args ?s0 @ [U]\<rparr>) = Inr s''"
      and same: "arg_dest s'' = arg_dest s'" "arg_vals s'' = arg_vals s'" "store s'' = store s'"
        "unknown s'' = unknown s' @ [U]"
    by auto
  have "?s0\<lparr>args := args ?s0 @ [U]\<rparr> = init_locals P (T @ [U]) st"
    by (simp add: init_locals_def)
  with run have "main_loop P True (init_locals P (T @ [U]) st) = Inr s''" by simp
  with req R st' same u show ?thesis
    by (simp add: parse_args_core_def)
qed

lemma count_name_extractions:
  "extractions count_name_parser (init_locals count_name_parser [''--count'', ''3'', ''alice''] st)
     = [(count_spec, ''--count'', [''3'', ''alice'']), (name_spec, ''name'', [''alice''])]"
  by (simp add: extractions.simps body_calls_def init_locals_def loop_body_def named_branch_def
      positional_branch_def looks_like_option_def startswith_def parse_def checked_def
      mk_arg_def no_kwargs_def kw_get_def py_str_def py_int_conv_def
      count_name_parser_def count_spec_def name_spec_def py_int_3)

lemma optional_two_extractions:
  "extractions optional_two_parser
       (init_locals optional_two_parser [''--xs'', ''--'', ''a'', ''b'', ''--q'', ''v''] st)
     = [(two_spec, ''--xs'', [''--'', ''a'', ''b'', ''--q'', ''v'']), (optional_spec, ''--q'', [''v''])]"
  by (simp add: extractions.simps body_calls_def init_locals_def loop_body_def named_branch_def
      positional_branch_def looks_like_option_def startswith_def parse_def checked_def
      mk_arg_def no_kwargs_def kw_get_def py_str_def collect_n_def nargs_count_def
      optional_two_parser_def optional_spec_def two_spec_def)

text \<open>
  C5 (as amended).  Let \<open>parse_args\<close> on the tokens \<open>T\<close> return the record \<open>R\<close>, and let \<open>U\<close> be
  a token that is no help spelling, matches no declared spelling of a named spec, and is
  left alone by every value extraction of that strict parse that reaches the end of its
  tokens.  Then \<open>parse_known_args\<close> on \<open>T + [U]\<close> returns \<open>(R, [U])\<close>, and leaves the same
  store.  \<open>U\<close> may be a bare token, the specs may be of any arity, and \<open>T\<close> may hold \<open>--\<close>.
\<close>

theorem C5_unknown_token_appended:
  assumes "U \<noteq> ''-h''" and "U \<noteq> ''--help''"
    and "\<forall>spec\<in>set (opt P). U \<notin> set (names spec)"
    and "\<forall>c\<in>set (extractions P (init_locals P T st)). leaves U c"
    and "st a = map PStr T" and "st b = map PStr (T @ [U])"
    and "parse_args P (Some a) argv st = Inr (Values R, st')"
  shows "parse_known_args P (Some b) argv st = Inr (ValuesUnknown R [U], st')"
proof -
  from assms(5,7) have "parse_args_core P T False st = Inr (Values R, st')"
    by (auto simp: parse_args_def parse_args_impl_def token_strings_map
        split: sum.splits prod.splits failure.splits)
  from parse_args_core_append_token[OF assms(1-4) this]
  have "parse_args_core P (T @ [U]) True st = Inr (ValuesUnknown R [U], st')" .
  moreover have "token_strings (st b) = Some (T @ [U])"
    unfolding assms(6) by (rule token_strings_map)
  ultimately show ?thesis
    by (simp add: parse_known_args_def parse_args_impl_def)
qed

theorem C5_unknown_token_appended_witness:
  "''bob'' \<noteq> ''-h'' \<and> ''bob'' \<noteq> ''--help'' \<and> ''bob'' \<notin> set (names count_spec)
   \<and> extractions count_name_parser
         (init_locals count_name_parser [''--count'', ''3'', ''alice'']
            ((tokens [''--count'', ''3'', ''alice''])
               (1 := map PStr ([''--count'', ''3'', ''alice''] @ [''bob'']))))
       = [(count_spec, ''--count'', [''3'', ''alice'']), (name_spec, ''name'', [''alice''])]
   \<and> leaves ''bob'' (count_spec, ''--count'', [''3'', ''alice''])
   \<and> leaves ''bob'' (name_spec, ''name'', [''alice''])
   \<and> parse_args count_name_parser (Some 0) []
         ((tokens [''--count'', ''3'', ''alice''])
            (1 := map PStr ([''--count'', ''3'', ''alice''] @ [''bob''])))
       = Inr (Values [(''count'', PInt 3), (''name'', PStr ''alice'')],
              (tokens [''--count'', ''3'', ''alice''])
                (1 := map PStr ([''--count'', ''3'', ''alice''] @ [''bob''])))
   \<and> parse_known_args count_name_parser (Some 1) []
         ((tokens [''--count'', ''3'', ''alice''])
            (1 := map PStr ([''--count'', ''3'', ''alice''] @ [''bob''])))
       = Inr (ValuesUnknown [(''count'', PInt 3), (''name'', PStr ''alice'')] [''bob''],
              (tokens [''--count'', ''3'', ''alice''])
                (1 := map PStr ([''--count'', ''3'', ''alice''] @ [''bob''])))
   \<and> ''--unk'' \<notin> set (names optional_spec) \<and> ''--unk'' \<notin> set (names two_spec)
   \<and> nargs optional_spec = NStr ''?''
   \<and> extractions optional_two_parser
         (init_locals optional_two_parser [''--xs'', ''--'', ''a'', ''b'', ''--q'', ''v'']
            ((tokens [''--xs'', ''--'', ''a'', ''b'', ''--q'', ''v''])
               (1 := map PStr ([''--xs'', ''--'', ''a'', ''b'', ''--q'', ''v''] @ [''--unk'']))))
       = [(two_spec, ''--xs'', [''--'', ''a'', ''b'', ''--q'', ''v'']),
          (optional_spec, ''--q'', [''v''])]
   \<and> leaves ''--unk'' (two_spec, ''--xs'', [''--'', ''a'', ''b'', ''--q'', ''v''])
   \<and> leaves ''--unk'' (optional_spec, ''--q'', [''v''])
   \<and> parse_args optional_two_parser (Some 0) []
         ((tokens [''--xs'', ''--'', ''a'', ''b'', ''--q'', ''v''])
            (1 := map PStr ([''--xs'', ''--'', ''a'', ''b'', ''--q'', ''v''] @ [''--unk''])))
       = Inr (Values [(''q'', PStr ''v''), (''xs'', PList [PStr ''a'', PStr ''b''])],
              (tokens [''--xs'', ''--'', ''a'', ''b'', ''--q'', ''v''])
                (1 := map PStr ([''--xs'', ''--'', ''a'', ''b'', ''--q'', ''v''] @ [''--unk''])))
   \<and> parse_known_args optional_two_parser (Some 1) []
         ((tokens [''--xs'', ''--'', ''a'', ''b'', ''--q'', ''v''])
            (1 := map PStr ([''--xs'', ''--'', ''a'', ''b'', ''--q'', ''v''] @ [''--unk''])))
       = Inr (ValuesUnknown [(''q'', PStr ''v''), (''xs'', PList [PStr ''a'', PStr ''b''])]
                [''--unk''],
              (tokens [''--xs'', ''--'', ''a'', ''b'', ''--q'', ''v''])
                (1 := map PStr ([''--xs'', ''--'', ''a'', ''b'', ''--q'', ''v''] @ [''--unk''])))"
proof -
  let ?T = "[''--count'', ''3'', ''alice'']"
  let ?st = "(tokens ?T)(1 := map PStr (?T @ [''bob'']))"
  let ?V = "[''--xs'', ''--'', ''a'', ''b'', ''--q'', ''v'']"
  let ?sv = "(tokens ?V)(1 := map PStr (?V @ [''--unk'']))"
  have n: "names count_spec = [''--count'']" "names optional_spec = [''--q'']"
      "names two_spec = [''--xs'']" "nargs optional_spec = NStr ''?''"
    by (simp_all add: count_spec_def optional_spec_def two_spec_def mk_arg_def no_kwargs_def
        kw_get_def Let_def)
  have a1: "''bob'' \<noteq> ''-h''" "''bob'' \<noteq> ''--help''" by simp_all
  have a2: "\<forall>spec\<in>set (opt count_name_parser). ''bob'' \<notin> set (names spec)"
    by (simp add: count_name_parser_def n)
  have a3: "leaves ''bob'' (count_spec, ''--count'', [''3'', ''alice''])"
      "leaves ''bob'' (name_spec, ''name'', [''alice''])"
    by (simp_all add: leaves_def parse_def checked_def mk_arg_def no_kwargs_def kw_get_def
        py_str_def py_int_conv_def count_spec_def name_spec_def py_int_3)
  have a4: "\<forall>c\<in>set (extractions count_name_parser (init_locals count_name_parser ?T ?st)).
      leaves ''bob'' c"
    by (simp add: count_name_extractions a3)
  have a5: "?st 0 = map PStr ?T" "?st 1 = map PStr (?T @ [''bob''])"
    by (simp_all add: tokens_def)
  have a6: "parse_args count_name_parser (Some 0) [] ?st
      = Inr (Values [(''count'', PInt 3), (''name'', PStr ''alice'')], ?st)"
    by (simp add: parse_args_def parse_known_args_def parse_args_impl_def parse_args_core_def
      init_locals_def main_loop.simps loop_body_def named_branch_def positional_branch_def
      looks_like_option_def startswith_def parse_def checked_def required_but_not_used_def
      enumerate_eq_zip mk_arg_def no_kwargs_def kw_get_def py_str_def py_int_conv_def
      collect_n_def tokens_def nargs_count_def count_name_parser_def count_spec_def name_spec_def py_int_3)
  have b1: "''--unk'' \<noteq> ''-h''" "''--unk'' \<noteq> ''--help''" by simp_all
  have b2: "\<forall>spec\<in>set (opt optional_two_parser). ''--unk'' \<notin> set (names spec)"
    by (simp add: optional_two_parser_def n)
  have p: "parse two_spec ''--xs'' [''--'', ''a'', ''b'', ''--q'', ''v''] = Inr (PList [PStr ''a'', PStr ''b''], [''--q'', ''v''])"
      "parse optional_spec ''--q'' [''v''] = Inr (PStr ''v'', [])"
      "parse optional_spec ''--q'' [''v'', ''--unk''] = Inr (PStr ''v'', [''--unk''])"
    by (simp_all add: parse_def checked_def mk_arg_def no_kwargs_def kw_get_def
        py_str_def collect_n_def nargs_count_def startswith_def optional_spec_def two_spec_def)
  have b3: "leaves ''--unk'' (two_spec, ''--xs'', [''--'', ''a'', ''b'', ''--q'', ''v''])"
      "leaves ''--unk'' (optional_spec, ''--q'', [''v''])"
    by (simp_all add: leaves_def p)
  have b4: "\<forall>c\<in>set (extractions optional_two_parser (init_locals optional_two_parser ?V ?sv)).
      leaves ''--unk'' c"
    by (simp add: optional_two_extractions b3)
  have b5: "?sv 0 = map PStr ?V" "?sv 1 = map PStr (?V @ [''--unk''])"
    by (simp_all add: tokens_def)
  have b6: "parse_args optional_two_parser (Some 0) [] ?sv
      = Inr (Values [(''q'', PStr ''v''), (''xs'', PList [PStr ''a'', PStr ''b''])], ?sv)"
    by (simp add: parse_args_def parse_known_args_def parse_args_impl_def parse_args_core_def
      init_locals_def main_loop.simps loop_body_def named_branch_def positional_branch_def
      looks_like_option_def startswith_def parse_def checked_def required_but_not_used_def
      enumerate_eq_zip mk_arg_def no_kwargs_def kw_get_def py_str_def py_int_conv_def
      collect_n_def tokens_def nargs_count_def optional_two_parser_def optional_spec_def two_spec_def)
  from C5_unknown_token_appended[OF a1 a2 a4 a5 a6] C5_unknown_token_appended[OF b1 b2 b4 b5 b6]
    a1 a3 a6 b3 b6 n count_name_extractions[of ?st] optional_two_extractions[of ?sv]
  show ?thesis by simp
qed

text \<open>
  A bare token after a \<open>"*"\<close> option matches no spelling and there is no positional, yet
  the option takes it and nothing is left over.  So does an option-looking token after a
  \<open>--\<close>, or after an option of optional arity; and \<open>-h\<close> ends the parse with the help exit.
\<close>

theorem C5_bare_token_consumed_counterexample:
  "parse_args \<lparr>opt = [star_spec], pos = []\<rparr> (Some 0) [] (tokens [''--xs'', ''a''])
     = Inr (Values [(''xs'', PList [PStr ''a''])], tokens [''--xs'', ''a''])
   \<and> names star_spec = [''--xs'']
   \<and> parse_known_args \<lparr>opt = [star_spec], pos = []\<rparr> (Some 0) [] (tokens ([''--xs'', ''a''] @ [''b'']))
     = Inr (ValuesUnknown [(''xs'', PList [PStr ''a'', PStr ''b''])] [],
            tokens ([''--xs'', ''a''] @ [''b'']))
   \<and> parse_args \<lparr>opt = [star_spec], pos = []\<rparr> (Some 0) [] (tokens [''--xs'', ''--'', ''a''])
     = Inr (Values [(''xs'', PList [PStr ''a''])], tokens [''--xs'', ''--'', ''a''])
   \<and> parse_known_args \<lparr>opt = [star_spec], pos = []\<rparr> (Some 0) []
        (tokens ([''--xs'', ''--'', ''a''] @ [''--unk'']))
     = Inr (ValuesUnknown [(''xs'', PList [PStr ''a'', PStr ''--unk''])] [],
            tokens ([''--xs'', ''--'', ''a''] @ [''--unk'']))
   \<and> parse_args \<lparr>opt = [optional_spec], pos = []\<rparr> (Some 0) [] (tokens [''--q''])
     = Inr (Values [(''q'', PNone)], tokens [''--q''])
   \<and> parse_known_args \<lparr>opt = [optional_spec], pos = []\<rparr> (Some 0) [] (tokens ([''--q''] @ [''--unk'']))
     = Inr (ValuesUnknown [(''q'', PStr ''--unk'')] [], tokens ([''--q''] @ [''--unk'']))
   \<and> parse_args empty_parser (Some 0) [] (tokens []) = Inr (Values [], tokens [])
   \<and> parse_known_args empty_parser (Some 0) [] (tokens ([] @ [''-h''])) = Inl (HelpExit, tokens ([] @ [''-h'']))"
  by (simp add: parse_args_def parse_known_args_def parse_args_impl_def parse_args_core_def
      init_locals_def main_loop.simps loop_body_def named_branch_def positional_branch_def
      looks_like_option_def startswith_def parse_def checked_def required_but_not_used_def
      enumerate_eq_zip mk_arg_def no_kwargs_def kw_get_def py_str_def py_int_conv_def
      collect_n_def tokens_def
      star_spec_def optional_spec_def empty_parser_def)

end
